theory Spec2Isabelle
  imports Complex_Main "HOL-Library.Word"
begin

unbundle bit_operations_syntax

section \<open>Errors\<close>

text \<open>
  The C++ sources have no error channel on their hot paths: what the model calls an error
  is a place where the source's behaviour is undefined (reading the last element of an
  empty array, dereferencing an end iterator, reading past the end of the encoded stream).
\<close>

datatype error =
    BackOfEmptyArray
  | DereferenceAtEnd
  | ReadPastEnd

section \<open>pointer_box (pointer\_box.h)\<close>

text \<open>
  A pointer is an address; the memory maps an address to the value stored there. The box
  holds the pointer only, so every comparison takes the memory as well.
\<close>

type_synonym address = nat
type_synonym 'a memory = "address \<Rightarrow> 'a"

record pointer_box =
  element :: address

definition pointer_box :: "address \<Rightarrow> pointer_box" where
  "pointer_box to = \<lparr>element = to\<rparr>"

definition compare :: "('a::linorder) memory \<Rightarrow> pointer_box \<Rightarrow> pointer_box \<Rightarrow> int" where
  "compare m this to =
     (if m (element this) < m (element to) then - 1
      else if m (element this) > m (element to) then 1
      else (if element this < element to then - 1
            else if element this > element to then 1
            else 0))"

definition operator_less :: "('a::linorder) memory \<Rightarrow> pointer_box \<Rightarrow> pointer_box \<Rightarrow> bool" where
  "operator_less m this to \<longleftrightarrow>
     m (element this) < m (element to)
     \<or> (m (element this) = m (element to) \<and> element this < element to)"

definition operator_less_eq :: "('a::linorder) memory \<Rightarrow> pointer_box \<Rightarrow> pointer_box \<Rightarrow> bool" where
  "operator_less_eq m this to \<longleftrightarrow>
     m (element this) \<le> m (element to)
     \<or> (m (element this) = m (element to) \<and> element this \<le> element to)"

definition operator_greater :: "('a::linorder) memory \<Rightarrow> pointer_box \<Rightarrow> pointer_box \<Rightarrow> bool" where
  "operator_greater m this to \<longleftrightarrow>
     m (element this) > m (element to)
     \<or> (m (element this) = m (element to) \<and> element this > element to)"

definition operator_greater_eq :: "('a::linorder) memory \<Rightarrow> pointer_box \<Rightarrow> pointer_box \<Rightarrow> bool" where
  "operator_greater_eq m this to \<longleftrightarrow>
     m (element this) \<ge> m (element to)
     \<or> (m (element this) = m (element to) \<and> element this \<ge> element to)"

definition operator_equal :: "('a::linorder) memory \<Rightarrow> pointer_box \<Rightarrow> pointer_box \<Rightarrow> bool" where
  "operator_equal m this to \<longleftrightarrow>
     element this = element to \<and> m (element this) = m (element to)"

definition operator_not_equal :: "('a::linorder) memory \<Rightarrow> pointer_box \<Rightarrow> pointer_box \<Rightarrow> bool" where
  "operator_not_equal m this to \<longleftrightarrow>
     element this \<noteq> element to \<or> m (element this) \<noteq> m (element to)"

text \<open>
  The array of the unit test, \<open>int array[] = {6, 3, 6}\<close>, placed at address \<open>p\<close> of a
  memory \<open>m\<close>; an \<open>int\<close> takes four bytes.
\<close>

definition unittest_array :: "int memory \<Rightarrow> address \<Rightarrow> int memory" where
  "unittest_array m p = m(p := 6, p + 4 := 3, p + 8 := 6)"

section \<open>index_postings (index\_postings.h)\<close>

text \<open>
  A \<open>dynamic_array\<close> is the list of the elements pushed so far: \<open>push_back\<close> appends,
  \<open>back\<close> is the last element. \<open>dynamic_array.h\<close> itself is not part of the sources
  read here; \<open>back\<close> on an empty array has no element to return, which the model reports
  as \<open>BackOfEmptyArray\<close>.
\<close>

record index_postings =
  highest_document :: "64 word"
  highest_position :: "64 word"
  document_ids :: "32 word list"
  term_frequencies :: "16 word list"
  positions :: "32 word list"

definition index_postings :: index_postings where
  "index_postings =
     \<lparr>highest_document = 0, highest_position = 0,
      document_ids = [], term_frequencies = [], positions = []\<rparr>"

definition push_back :: "index_postings \<Rightarrow> 64 word \<Rightarrow> 64 word \<Rightarrow> error + index_postings" where
  "push_back this document_id position =
     (if document_id = highest_document this then
        (if term_frequencies this = [] then Inl BackOfEmptyArray
         else
           let frequency = last (term_frequencies this);
               frequency' = (if frequency \<le> 0xFFFE then frequency + 1 else frequency)
           in Inr (this\<lparr>term_frequencies := butlast (term_frequencies this) @ [frequency'],
                        positions := positions this @ [ucast position],
                        highest_position := position\<rparr>))
      else
        Inr (this\<lparr>document_ids := document_ids this @ [ucast document_id],
                  highest_document := document_id,
                  term_frequencies := term_frequencies this @ [1],
                  positions := positions this @ [ucast position],
                  highest_position := position\<rparr>))"

text \<open>A run of \<open>push_back\<close> calls, stopping at the first undefined one.\<close>

fun push_back_all :: "index_postings \<Rightarrow> (64 word \<times> 64 word) list \<Rightarrow> error + index_postings" where
  "push_back_all this [] = Inr this"
| "push_back_all this ((document_id, position) # rest) =
     (case push_back this document_id position of
        Inl e \<Rightarrow> Inl e
      | Inr this' \<Rightarrow> push_back_all this' rest)"

text \<open>The term frequency after \<open>k\<close> occurrences of one document: \<open>k\<close>, held at \<open>0xFFFF\<close>.\<close>

definition saturate :: "nat \<Rightarrow> 16 word" where
  "saturate k = word_of_nat (min k 65535)"

subsection \<open>The iterator\<close>

text \<open>
  A forward iterator over a dynamic array is the list of the elements not yet passed:
  \<open>begin\<close> is the whole list, \<open>end\<close> is the empty list, \<open>++\<close> drops the head and
  \<open>*\<close> reads it.
\<close>

record iterator =
  document :: "32 word list"
  frequency :: "16 word list"
  position :: "32 word list"
  frequency_end :: "16 word list"
  frequencies_remaining :: "32 word"

datatype where_from = START | END

definition iterator :: "index_postings \<Rightarrow> where_from \<Rightarrow> iterator" where
  "iterator parent start =
     (let frequency = (if start = START then term_frequencies parent else [])
      in \<lparr>document = (if start = START then document_ids parent else []),
          frequency = frequency,
          position = (if start = START then positions parent else []),
          frequency_end = [],
          frequencies_remaining = (if frequency \<noteq> [] then ucast (hd frequency) else 0)\<rparr>)"

definition operator_differs :: "iterator \<Rightarrow> iterator \<Rightarrow> bool" where
  "operator_differs this other \<longleftrightarrow> position other \<noteq> position this"

definition operator_deref :: "iterator \<Rightarrow> error + (32 word \<times> 32 word \<times> 32 word)" where
  "operator_deref this =
     (if document this = [] \<or> frequency this = [] \<or> position this = [] then Inl DereferenceAtEnd
      else Inr (hd (document this), ucast (hd (frequency this)), hd (position this)))"

definition operator_increment :: "iterator \<Rightarrow> iterator" where
  "operator_increment this =
     (let remaining = frequencies_remaining this - 1;
          this1 = (if remaining \<le> 0
                   then (let frequency = tl (frequency this)
                         in this\<lparr>document := tl (document this),
                                 frequency := frequency,
                                 frequencies_remaining :=
                                   (if frequency \<noteq> frequency_end this then ucast (hd frequency) else 0)\<rparr>)
                   else this\<lparr>frequencies_remaining := remaining\<rparr>)
      in this1\<lparr>position := tl (position this1)\<rparr>)"

definition begin_postings :: "index_postings \<Rightarrow> iterator" where
  "begin_postings this = iterator this START"

definition end_postings :: "index_postings \<Rightarrow> iterator" where
  "end_postings this = iterator this END"

subsection \<open>Decimal output\<close>

text \<open>What \<open>operator<<\<close> of a stream writes for an unsigned integer.\<close>

definition digit :: "nat \<Rightarrow> char" where
  "digit d = ''0123456789'' ! d"

fun decimal :: "nat \<Rightarrow> string" where
  "decimal n = (if n < 10 then [digit n] else decimal (n div 10) @ [digit (n mod 10)])"

declare decimal.simps [simp del]

subsection \<open>text\_render\<close>

function text_render_loop ::
  "iterator \<Rightarrow> iterator \<Rightarrow> 32 word \<Rightarrow> string \<Rightarrow> error + string" where
  "text_render_loop it last_it previous_document_id stream =
     (if \<not> operator_differs it last_it then Inr stream
      else
        (case operator_deref it of
           Inl e \<Rightarrow> Inl e
         | Inr (doc, tf, pos) \<Rightarrow>
             if doc \<noteq> previous_document_id then
               text_render_loop (operator_increment it) last_it doc
                 (stream
                  @ (if previous_document_id \<noteq> 0xFFFFFFFF then ''>'' else '''')
                  @ ''<'' @ decimal (unat doc) @ '','' @ decimal (unat tf)
                  @ '','' @ decimal (unat pos))
             else
               text_render_loop (operator_increment it) last_it previous_document_id
                 (stream @ '','' @ decimal (unat pos))))"
  by pat_completeness auto
termination
  by (relation "measure (\<lambda>(it, last_it, previous_document_id, stream). length (position it))")
     (auto simp: operator_increment_def operator_deref_def Let_def split: if_splits)

definition text_render :: "index_postings \<Rightarrow> string \<Rightarrow> error + string" where
  "text_render this stream =
     (case text_render_loop (begin_postings this) (end_postings this) 0xFFFFFFFF stream of
        Inl e \<Rightarrow> Inl e
      | Inr stream' \<Rightarrow> Inr (stream' @ ''>''))"

section \<open>printer (JASSv1\_to\_human.cpp)\<close>

text \<open>
  A 256-bit register is the list of its eight 32-bit lanes, lowest first, which is the
  order in which \<open>_mm256_storeu_si256\<close> lays them out in \<open>each[8]\<close>. Standard output is
  the string written so far.
\<close>

type_synonym m256i = "32 word list"

record printer =
  impact :: "64 word"

definition set_score :: "printer \<Rightarrow> 64 word \<Rightarrow> printer" where
  "set_score this impact' = this\<lparr>impact := impact'\<rparr>"

fun printer_push_back_loop :: "printer \<Rightarrow> 32 word list \<Rightarrow> nat \<Rightarrow> nat \<Rightarrow> string \<Rightarrow> string" where
  "printer_push_back_loop this each which 0 cout = cout"
| "printer_push_back_loop this each which (Suc n) cout =
     printer_push_back_loop this each (Suc which) n
       (if each ! which \<noteq> 0
        then cout @ ''<'' @ decimal (unat (each ! which)) @ '','' @ decimal (unat (impact this)) @ ''>''
        else cout)"

definition printer_push_back :: "printer \<Rightarrow> m256i \<Rightarrow> string \<Rightarrow> string" where
  "printer_push_back this document_ids' cout = printer_push_back_loop this document_ids' 0 8 cout"

definition add_rsv :: "printer \<Rightarrow> 64 word \<Rightarrow> 64 word \<Rightarrow> string \<Rightarrow> string" where
  "add_rsv this document' impact' cout =
     cout @ ''<'' @ decimal (unat document') @ '','' @ decimal (unat impact') @ ''>''"

section \<open>quantize (quantize.h)\<close>

subsection \<open>The type double\<close>

text \<open>
  The scores and the two bounds of the quantizer are \<open>double\<close>s, IEEE 754 binary64 numbers:
  a finite number, one of the two infinities, or NaN. A finite \<open>double\<close> is given by its
  value. The sign of a zero is not kept: it changes no comparison and no conversion to an
  integer, and the only zero that the quantizer divides by is a difference \<open>x - x\<close>, which
  is \<open>+0\<close>; so a division of a number other than zero by zero gives the infinity of the
  sign of that number.
\<close>

datatype double = Finite real | PlusInfinity | MinusInfinity | NaN

text \<open>
  The constants of \<open>std::numeric_limits<double>\<close>: \<open>min()\<close> is the smallest positive
  normalised value, \<open>max()\<close> the largest finite one.
\<close>

definition DBL_MIN :: real where
  "DBL_MIN = 1 / 2 ^ 1022"

definition DBL_MAX :: real where
  "DBL_MAX = (2 - 1 / 2 ^ 52) * 2 ^ 1023"

text \<open>
  Every arithmetic operation gives the exact result rounded to the nearest \<open>double\<close>, ties
  to the even significand. For a magnitude \<open>a\<close> with \<open>2 powi e \<le> a < 2 powi (e + 1)\<close> the
  \<open>double\<close>s next to \<open>a\<close> are the multiples of \<open>2 powi (e - 52)\<close>, where \<open>e\<close> is no less than
  \<open>-1022\<close>: below \<open>2 powi (-1022)\<close> the numbers are subnormal, the multiples of
  \<open>2 powi (-1074)\<close>. A result that rounds beyond \<open>DBL_MAX\<close> is an infinity.
\<close>

function floor_log2 :: "int \<Rightarrow> int" where
  "floor_log2 n = (if n < 2 then 0 else 1 + floor_log2 (n div 2))"
  by auto

termination floor_log2
  by (relation "measure nat") auto

declare floor_log2.simps [simp del]

definition exponent :: "real \<Rightarrow> int" where
  "exponent a = max (- 1022) (floor_log2 \<lfloor>a * 2 ^ 1074\<rfloor> - 1074)"

definition round_half_even :: "real \<Rightarrow> int" where
  "round_half_even y =
     (if y - of_int \<lfloor>y\<rfloor> < 1 / 2 then \<lfloor>y\<rfloor>
      else if y - of_int \<lfloor>y\<rfloor> > 1 / 2 then \<lfloor>y\<rfloor> + 1
      else if even \<lfloor>y\<rfloor> then \<lfloor>y\<rfloor> else \<lfloor>y\<rfloor> + 1)"

definition round_magnitude :: "real \<Rightarrow> real" where
  "round_magnitude a =
     2 powi (exponent a - 52) * of_int (round_half_even (a / 2 powi (exponent a - 52)))"

definition round_to_nearest :: "real \<Rightarrow> real" where
  "round_to_nearest x = (if x < 0 then - round_magnitude (- x) else round_magnitude x)"

definition to_double :: "real \<Rightarrow> double" where
  "to_double x =
     (if round_to_nearest x > DBL_MAX then PlusInfinity
      else if round_to_nearest x < - DBL_MAX then MinusInfinity
      else Finite (round_to_nearest x))"

text \<open>The operators \<open>-\<close>, \<open>/\<close> and \<open>*\<close> of two \<open>double\<close>s.\<close>

fun double_sub :: "double \<Rightarrow> double \<Rightarrow> double" where
  "double_sub (Finite a) (Finite b) = to_double (a - b)"
| "double_sub (Finite a) PlusInfinity = MinusInfinity"
| "double_sub (Finite a) MinusInfinity = PlusInfinity"
| "double_sub (Finite a) NaN = NaN"
| "double_sub PlusInfinity (Finite b) = PlusInfinity"
| "double_sub PlusInfinity PlusInfinity = NaN"
| "double_sub PlusInfinity MinusInfinity = PlusInfinity"
| "double_sub PlusInfinity NaN = NaN"
| "double_sub MinusInfinity (Finite b) = MinusInfinity"
| "double_sub MinusInfinity PlusInfinity = MinusInfinity"
| "double_sub MinusInfinity MinusInfinity = NaN"
| "double_sub MinusInfinity NaN = NaN"
| "double_sub NaN y = NaN"

fun double_div :: "double \<Rightarrow> double \<Rightarrow> double" where
  "double_div (Finite a) (Finite b) =
     (if b = 0 then (if a = 0 then NaN else if a > 0 then PlusInfinity else MinusInfinity)
      else to_double (a / b))"
| "double_div (Finite a) PlusInfinity = Finite 0"
| "double_div (Finite a) MinusInfinity = Finite 0"
| "double_div (Finite a) NaN = NaN"
| "double_div PlusInfinity (Finite b) = (if b < 0 then MinusInfinity else PlusInfinity)"
| "double_div PlusInfinity PlusInfinity = NaN"
| "double_div PlusInfinity MinusInfinity = NaN"
| "double_div PlusInfinity NaN = NaN"
| "double_div MinusInfinity (Finite b) = (if b < 0 then PlusInfinity else MinusInfinity)"
| "double_div MinusInfinity PlusInfinity = NaN"
| "double_div MinusInfinity MinusInfinity = NaN"
| "double_div MinusInfinity NaN = NaN"
| "double_div NaN y = NaN"

fun double_mul :: "double \<Rightarrow> double \<Rightarrow> double" where
  "double_mul (Finite a) (Finite b) = to_double (a * b)"
| "double_mul (Finite a) PlusInfinity =
     (if a = 0 then NaN else if a > 0 then PlusInfinity else MinusInfinity)"
| "double_mul (Finite a) MinusInfinity =
     (if a = 0 then NaN else if a > 0 then MinusInfinity else PlusInfinity)"
| "double_mul (Finite a) NaN = NaN"
| "double_mul PlusInfinity (Finite b) =
     (if b = 0 then NaN else if b > 0 then PlusInfinity else MinusInfinity)"
| "double_mul PlusInfinity PlusInfinity = PlusInfinity"
| "double_mul PlusInfinity MinusInfinity = MinusInfinity"
| "double_mul PlusInfinity NaN = NaN"
| "double_mul MinusInfinity (Finite b) =
     (if b = 0 then NaN else if b > 0 then MinusInfinity else PlusInfinity)"
| "double_mul MinusInfinity PlusInfinity = MinusInfinity"
| "double_mul MinusInfinity MinusInfinity = PlusInfinity"
| "double_mul MinusInfinity NaN = NaN"
| "double_mul NaN y = NaN"

text \<open>The comparisons \<open><\<close>, \<open>>\<close> and \<open><=\<close>: every comparison with a NaN is false.\<close>

fun double_less :: "double \<Rightarrow> double \<Rightarrow> bool" where
  "double_less (Finite a) (Finite b) = (a < b)"
| "double_less (Finite a) PlusInfinity = True"
| "double_less (Finite a) MinusInfinity = False"
| "double_less (Finite a) NaN = False"
| "double_less PlusInfinity y = False"
| "double_less MinusInfinity (Finite b) = True"
| "double_less MinusInfinity PlusInfinity = True"
| "double_less MinusInfinity MinusInfinity = False"
| "double_less MinusInfinity NaN = False"
| "double_less NaN y = False"

definition double_greater :: "double \<Rightarrow> double \<Rightarrow> bool" where
  "double_greater x y = double_less y x"

fun double_less_eq :: "double \<Rightarrow> double \<Rightarrow> bool" where
  "double_less_eq (Finite a) (Finite b) = (a \<le> b)"
| "double_less_eq (Finite a) PlusInfinity = True"
| "double_less_eq (Finite a) MinusInfinity = False"
| "double_less_eq (Finite a) NaN = False"
| "double_less_eq PlusInfinity (Finite b) = False"
| "double_less_eq PlusInfinity PlusInfinity = True"
| "double_less_eq PlusInfinity MinusInfinity = False"
| "double_less_eq PlusInfinity NaN = False"
| "double_less_eq MinusInfinity (Finite b) = True"
| "double_less_eq MinusInfinity PlusInfinity = True"
| "double_less_eq MinusInfinity MinusInfinity = True"
| "double_less_eq MinusInfinity NaN = False"
| "double_less_eq NaN y = False"

subsection \<open>The impact type\<close>

text \<open>
  Modelled from the spec: \<open>index_postings_impact.h\<close> (the impact type and the constants
  \<open>smallest_impact\<close> and \<open>largest_impact\<close>) is not among the sources. The spec gives
  impacts as one byte in \<open>[1, 255]\<close>.
\<close>

type_synonym impact_type = "8 word"

definition smallest_impact :: nat where
  "smallest_impact = 1"

definition largest_impact :: nat where
  "largest_impact = 255"

text \<open>
  \<open>static_cast<impact_type>\<close> of a \<open>double\<close> truncates towards zero. C++ leaves the
  conversion undefined when the truncated value does not fit the type (so for a NaN and
  for the infinities); the model gives what the conversion instruction of the x86-64
  target of this code gives (\<open>cvttsd2si\<close> to a 32-bit register, of which the low bits are
  kept): the low bits of the truncated value when it fits 32 signed bits, and otherwise
  those of the integer indefinite value \<open>0x80000000\<close>, which are zero.
\<close>

definition truncate_toward_zero :: "real \<Rightarrow> int" where
  "truncate_toward_zero x = (if x \<ge> 0 then \<lfloor>x\<rfloor> else \<lceil>x\<rceil>)"

fun static_cast_impact_type :: "double \<Rightarrow> impact_type" where
  "static_cast_impact_type (Finite x) =
     (if - (2 ^ 31) \<le> truncate_toward_zero x \<and> truncate_toward_zero x < 2 ^ 31
      then word_of_int (truncate_toward_zero x) else 0)"
| "static_cast_impact_type PlusInfinity = 0"
| "static_cast_impact_type MinusInfinity = 0"
| "static_cast_impact_type NaN = 0"

subsection \<open>The class quantize\<close>

definition impact_range :: double where
  "impact_range = Finite (real (largest_impact - smallest_impact))"

text \<open>
  The ranking function is a parameter. \<open>compute_idf_component (document_frequency,
  documents_in_collection)\<close>, \<open>compute_tf_component (tf)\<close> and \<open>compute_score (docid - 1, tf)\<close>
  together determine one score, so a ranker is a function of these four values.
\<close>

type_synonym ranker = "32 word \<Rightarrow> 32 word \<Rightarrow> 32 word \<Rightarrow> impact_type \<Rightarrow> double"

record quantize =
  largest_rsv :: double
  smallest_rsv :: double
  ranker :: ranker
  documents_in_collection :: "32 word"

definition quantize :: "64 word \<Rightarrow> ranker \<Rightarrow> quantize" where
  "quantize documents ranker' =
     \<lparr>largest_rsv = Finite DBL_MIN, smallest_rsv = Finite DBL_MAX, ranker = ranker',
      documents_in_collection = ucast documents\<rparr>"

text \<open>
  Pass A, \<open>operator()\<close> without a writer: one call per postings list, given as the list
  of its (document id, term frequency) pairs; \<open>document_frequency\<close> is its length.
\<close>

fun observe_postings ::
  "quantize \<Rightarrow> 32 word \<Rightarrow> (32 word \<times> impact_type) list \<Rightarrow> quantize" where
  "observe_postings this document_frequency [] = this"
| "observe_postings this document_frequency ((current_id, current_tf) # rest) =
     (let score = ranker this document_frequency (documents_in_collection this) (current_id - 1) current_tf;
          this1 = (if double_less score (smallest_rsv this) then this\<lparr>smallest_rsv := score\<rparr> else this);
          this2 = (if double_greater score (largest_rsv this1) then this1\<lparr>largest_rsv := score\<rparr> else this1)
      in observe_postings this2 document_frequency rest)"

definition operator_observe :: "quantize \<Rightarrow> (32 word \<times> impact_type) list \<Rightarrow> quantize" where
  "operator_observe this postings = observe_postings this (word_of_nat (length postings)) postings"

text \<open>
  Pass B, \<open>operator()\<close> with a writer. The quotient of l.166 is computed for every posting,
  whatever its divisor \<open>largest_rsv - smallest_rsv\<close>: there is no test of the range, and a
  division of \<open>double\<close>s by zero does not trap. The loop updates every term frequency, and
  the result is the list that is passed to the writer.
\<close>

definition score_quotient :: "quantize \<Rightarrow> double \<Rightarrow> double" where
  "score_quotient this score =
     double_div (double_sub score (smallest_rsv this))
                (double_sub (largest_rsv this) (smallest_rsv this))"

definition quantize_score :: "quantize \<Rightarrow> double \<Rightarrow> impact_type" where
  "quantize_score this score =
     static_cast_impact_type (double_mul (score_quotient this score) impact_range)
       + word_of_nat smallest_impact"

fun quantize_postings ::
  "quantize \<Rightarrow> 32 word \<Rightarrow> (32 word \<times> impact_type) list \<Rightarrow> (32 word \<times> impact_type) list" where
  "quantize_postings this document_frequency [] = []"
| "quantize_postings this document_frequency ((current_id, current_tf) # rest) =
     (let score = ranker this document_frequency (documents_in_collection this) (current_id - 1) current_tf;
          impact' = quantize_score this score
      in (current_id, impact') # quantize_postings this document_frequency rest)"

definition operator_quantize ::
  "quantize \<Rightarrow> (32 word \<times> impact_type) list \<Rightarrow> (32 word \<times> impact_type) list" where
  "operator_quantize this postings = quantize_postings this (word_of_nat (length postings)) postings"

definition get_bounds :: "quantize \<Rightarrow> double \<times> double" where
  "get_bounds this = (smallest_rsv this, largest_rsv this)"

text \<open>\<open>index.iterate(quantizer)\<close>: pass A over every postings list of the index.\<close>

definition iterate :: "quantize \<Rightarrow> (32 word \<times> impact_type) list list \<Rightarrow> quantize" where
  "iterate this index = foldl operator_observe this index"

text \<open>The score of one posting of a postings list, and a ranker that scores by term frequency.\<close>

definition score_of :: "quantize \<Rightarrow> (32 word \<times> impact_type) list \<Rightarrow> 32 word \<times> impact_type \<Rightarrow> double" where
  "score_of this postings p =
     ranker this (word_of_nat (length postings)) (documents_in_collection this) (fst p - 1) (snd p)"

definition tf_ranker :: ranker where
  "tf_ranker document_frequency documents d tf = Finite (real (unat tf))"

section \<open>compress_integer_elias_gamma_simd_vb\<close>

text \<open>
  The encoder writes, and the decoder reads, the encoded buffer in units of \<open>uint32_t\<close>
  (the selector, and the sixteen 32-bit lanes of the two 256-bit loads), at byte offsets
  that are multiples of four. The buffer is therefore the list of its 32-bit words;
  offsets and lengths are still counted in bytes, as in the source.
\<close>

definition WORD_WIDTH :: nat where
  "WORD_WIDTH = 32"

definition WORDS :: nat where
  "WORDS = 512 div WORD_WIDTH"

text \<open>
  Modelled from the spec: \<open>maths::ceiling_log2\<close> (\<open>maths.h\<close> is not among the sources).
  The spec gives the width of a group as \<open>\<lceil>log\<^sub>2 (max (values, 1))\<rceil>\<close>, with width 1 for
  all-zero or all-one groups. \<open>log2_ceiling n\<close> is \<open>\<lceil>log\<^sub>2 n\<rceil>\<close> for \<open>n \<ge> 1\<close>.
\<close>

fun log2_ceiling :: "nat \<Rightarrow> nat" where
  "log2_ceiling n = (if n \<le> 1 then 0 else Suc (log2_ceiling ((n + 1) div 2)))"

declare log2_ceiling.simps [simp del]

definition ceiling_log2 :: "32 word \<Rightarrow> nat" where
  "ceiling_log2 x = (if x \<le> 1 then 1 else log2_ceiling (unat x))"

text \<open>
  Modelled from the spec: \<open>find_first_set_bit\<close> is declared outside the sources read
  here. The spec gives it as the 1-based index of the lowest set bit; for 0, where there
  is none, the model returns 0 (the row of \<open>mask_set\<close> that the source calls the sentinel).
\<close>

definition find_first_set_bit :: "64 word \<Rightarrow> nat" where
  "find_first_set_bit x = (case find (bit x) [0 ..< 64] of None \<Rightarrow> 0 | Some i \<Rightarrow> Suc i)"

subsection \<open>compute\_selector\<close>

text \<open>
  \<open>encodings\<close> is the array of \<open>uint8_t\<close> widths. The first loop finds the first zero
  among the first 32 entries; the second walks back from there to entry 0. A shift is
  \<open>push_bit\<close>: a shift count of 32 reaches the source only with \<open>value = 0\<close> (one slice
  that fills the word), where every reading of the shift gives 0.
\<close>

function scan_encodings :: "nat list \<Rightarrow> nat \<Rightarrow> nat" where
  "scan_encodings encodings current =
     (if current < 32
      then (if encodings ! current = 0 then current
            else scan_encodings encodings (current + 1))
      else current)"
  by pat_completeness auto
termination
  by (relation "measure (\<lambda>(encodings, current). 32 - current)") auto

declare scan_encodings.simps [simp del]

fun permutation_number :: "nat list \<Rightarrow> nat \<Rightarrow> 32 word \<Rightarrow> 32 word" where
  "permutation_number encodings 0 value = value"
| "permutation_number encodings (Suc current) value =
     (let number_of_0s = encodings ! current
      in permutation_number encodings current
           (push_bit number_of_0s value OR push_bit (number_of_0s - 1) 1))"

definition compute_selector :: "nat list \<Rightarrow> 32 word" where
  "compute_selector encodings = permutation_number encodings (scan_encodings encodings 0) 0"

subsection \<open>encode\<close>

text \<open>
  The \<open>for\<close> loop over the slices of one frame. It ends in one of two ways: the input is
  exhausted (the source pads the last width and returns from inside the loop:
  \<open>finished\<close>), or the next group does not fit or 32 slices are packed (the source leaves
  the loop and pads the last width behind it). \<open>packed\<close> is the state of the loop's
  variables at that point; \<open>array\<close> and \<open>elements\<close> are the list of the integers not
  yet encoded and its length. The counters \<open>slice\<close>, \<open>remaining\<close> and
  \<open>cumulative_shift\<close> stay within 32 and are natural numbers; a width stored into the
  \<open>uint8_t\<close> array is reduced modulo 256, as the store does.
\<close>

record packed =
  finished :: bool
  slice :: nat
  remaining :: nat
  encodings :: "nat list"
  payload :: "32 word list"
  array :: "32 word list"

definition column_width :: "32 word list \<Rightarrow> nat" where
  "column_width array' =
     ceiling_log2 (foldl (\<lambda>max_width word. max_width OR (if word < length array' then array' ! word else 1))
                         1 [0 ..< WORDS])"

function pack_slices ::
  "nat \<Rightarrow> nat \<Rightarrow> nat \<Rightarrow> nat list \<Rightarrow> 32 word list \<Rightarrow> 32 word list \<Rightarrow> packed" where
  "pack_slices slice' remaining' cumulative_shift encodings' destination array' =
     (if slice' < 32 then
        (let max_width = column_width array'
         in if max_width \<le> remaining' then
              (let encodings1 = encodings'[slice' := max_width mod 256];
                   destination1 =
                     map (\<lambda>word. destination ! word
                                  OR push_bit cumulative_shift
                                       (if word < length array' then array' ! word else 0))
                         [0 ..< WORDS]
               in if WORDS \<ge> length array' then
                    \<lparr>finished = True, slice = slice', remaining = remaining' - max_width,
                     encodings = encodings1, payload = destination1, array = drop WORDS array'\<rparr>
                  else
                    pack_slices (slice' + 1) (remaining' - max_width) (cumulative_shift + max_width)
                      encodings1 destination1 (drop WORDS array'))
            else
              \<lparr>finished = False, slice = slice', remaining = remaining',
               encodings = encodings', payload = destination, array = array'\<rparr>)
      else
        \<lparr>finished = False, slice = slice', remaining = remaining',
         encodings = encodings', payload = destination, array = array'\<rparr>)"
  by pat_completeness auto
termination
  by (relation "measure (\<lambda>(slice', remaining', cumulative_shift, encodings', destination, array'). 32 - slice')")
     auto

declare pack_slices.simps [simp del]

text \<open>
  The \<open>while (1)\<close> loop over frames. \<open>destination\<close> is the byte offset of the next frame,
  \<open>encoded\<close> the words written so far. The result is the returned byte count and the
  words written.
\<close>

function encode_loop ::
  "nat \<Rightarrow> nat \<Rightarrow> 32 word list \<Rightarrow> nat list \<Rightarrow> 32 word list \<Rightarrow> nat \<times> 32 word list" where
  "encode_loop destination encoded_buffer_length encoded encodings' array' =
     (if destination + (WORDS + 1 + 1) * 4 > encoded_buffer_length then (0, encoded)
      else
        (let p = pack_slices 0 WORD_WIDTH 0 encodings' (replicate WORDS 0) array'
         in if finished p then
              (let encodings1 = (encodings p)[slice p := (encodings p ! slice p + remaining p) mod 256];
                   encodings2 = encodings1[slice p + 1 := 0]
               in (destination + 4 + WORDS * 4,
                   encoded @ [compute_selector encodings2] @ payload p))
            else
              (let encodings1 = (encodings p)[slice p - 1 := (encodings p ! (slice p - 1) + remaining p) mod 256];
                   encodings2 = encodings1[slice p := 0]
               in encode_loop (destination + 4 + WORDS * 4) encoded_buffer_length
                    (encoded @ [compute_selector encodings2] @ payload p) encodings2 (array p))))"
  by pat_completeness auto
termination
proof (relation "measure (\<lambda>(destination, encoded_buffer_length, encoded, encodings', array'). length array')")
  show "wf (measure (\<lambda>(destination, encoded_buffer_length, encoded, encodings', array'). length array'))"
    by simp
next
  fix destination encoded_buffer_length :: nat
    and encoded :: "32 word list" and encodings' :: "nat list" and array' :: "32 word list"
    and x xa xb
  assume np: "\<not> finished x"
    and x: "x = pack_slices 0 WORD_WIDTH 0 encodings' (replicate WORDS 0) array'"
  have lg: "n \<le> 2 ^ k \<Longrightarrow> log2_ceiling n \<le> k" for n k
  proof (induction k arbitrary: n)
    case 0
    then show ?case by (simp add: log2_ceiling.simps)
  next
    case (Suc k)
    show ?case
    proof (cases "n \<le> 1")
      case True
      then show ?thesis by (simp add: log2_ceiling.simps)
    next
      case False
      from Suc.prems have "(n + 1) div 2 \<le> 2 ^ k" by simp
      then have "log2_ceiling ((n + 1) div 2) \<le> k" by (rule Suc.IH)
      with False show ?thesis by (subst log2_ceiling.simps) simp
    qed
  qed
  have "ceiling_log2 v \<le> 32" for v
  proof -
    have "unat v \<le> 2 ^ 32"
      using unsigned_less [of v, where ?'a = nat] by simp
    then show ?thesis
      by (simp add: ceiling_log2_def lg)
  qed
  then have w: "column_width array' \<le> 32"
    by (simp add: column_width_def)
  have len: "length (array (pack_slices s r c e d a)) \<le> length a" for s r c e d a
  proof (induction s r c e d a rule: pack_slices.induct)
    case (1 s r c e d a)
    show ?case
      apply (subst pack_slices.simps)
      using "1" [OF _ refl _ refl refl]
      by (auto simp: Let_def simp del: upt_rec_numeral)
  qed
  have "length (array x) < length array'"
  proof (cases "WORDS \<ge> length array'")
    case True
    then have "finished x"
      unfolding x by (subst pack_slices.simps) (use w in \<open>simp add: Let_def WORD_WIDTH_def\<close>)
    with np show ?thesis by simp
  next
    case False
    then have "x = pack_slices 1 (32 - column_width array') (column_width array')
                     (encodings'[0 := column_width array' mod 256])
                     (map (\<lambda>word. replicate WORDS 0 ! word
                                  OR push_bit 0 (if word < length array' then array' ! word else 0))
                         [0 ..< WORDS]) (drop WORDS array')"
      unfolding x by (subst pack_slices.simps) (use w in \<open>simp add: Let_def WORD_WIDTH_def del: upt_rec_numeral\<close>)
    then have "length (array x) \<le> length (drop WORDS array')"
      by (simp only: len)
    with False show ?thesis by (simp add: WORDS_def WORD_WIDTH_def)
  qed
  then show "((destination + 4 + WORDS * 4, encoded_buffer_length,
          encoded @ [compute_selector xb] @ payload x, xb, array x),
         destination, encoded_buffer_length, encoded, encodings', array')
        \<in> measure (\<lambda>(destination, encoded_buffer_length, encoded, encodings', array'). length array')"
    by simp
qed

declare encode_loop.simps [simp del]

definition encode :: "nat \<Rightarrow> 32 word list \<Rightarrow> nat \<times> 32 word list" where
  "encode encoded_buffer_length array' = encode_loop 0 encoded_buffer_length [] (replicate 33 0) array'"

subsection \<open>decode\<close>

text \<open>The table of AND masks: 33 rows of 16 equal lanes, row \<open>w\<close> for \<open>w\<close>-bit integers.\<close>

definition mask_set :: "32 word list list" where
  "mask_set = map (replicate 16)
     [0x00, 0x01, 0x03, 0x07, 0x0f, 0x1f, 0x3f, 0x7f, 0xff,
      0x1ff, 0x3ff, 0x7ff, 0xfff, 0x1fff, 0x3fff, 0x7fff, 0xffff,
      0x1ffff, 0x3ffff, 0x7ffff, 0xfffff, 0x1fffff, 0x3fffff, 0x7fffff, 0xffffff,
      0x1ffffff, 0x3ffffff, 0x7ffffff, 0xfffffff, 0x1fffffff, 0x3fffffff, 0x7fffffff, 0xffffffff]"

text \<open>
  The \<open>while (1)\<close> loop of the decoder. \<open>source\<close> and \<open>end_of_source\<close> are byte offsets
  into \<open>memory\<close>, the words of the encoded buffer; \<open>into\<close> is the list of the integers
  stored so far (16 per turn of the loop) in an output buffer large enough to take them.
  Loading a frame that is not wholly inside \<open>memory\<close> is \<open>ReadPastEnd\<close>.
\<close>

function decode_loop ::
  "64 word \<Rightarrow> m256i \<Rightarrow> m256i \<Rightarrow> nat \<Rightarrow> nat \<Rightarrow> 32 word list \<Rightarrow> 32 word list
     \<Rightarrow> error + 32 word list" where
  "decode_loop selector payload1 payload2 source end_of_source memory into =
     (if selector = 0 \<and> source \<ge> end_of_source then Inr into
      else if selector = 0 \<and> length memory < source div 4 + 17 then Inl ReadPastEnd
      else
        (let (selector1, payload1', payload2', source1) =
               (if selector = 0
                then (ucast (memory ! (source div 4)),
                      take 8 (drop (source div 4 + 1) memory),
                      take 8 (drop (source div 4 + 9) memory),
                      source + 68)
                else (selector, payload1, payload2, source));
             width = find_first_set_bit selector1;
             mask' = take 8 (mask_set ! width)
         in decode_loop (drop_bit width selector1)
              (map (drop_bit width) payload1') (map (drop_bit width) payload2')
              source1 end_of_source memory
              (into @ map2 (AND) payload1' mask' @ map2 (AND) payload2' mask')))"
  by pat_completeness auto
termination
proof (relation "measures [\<lambda>(selector, payload1, payload2, source, end_of_source, memory, into).
                             end_of_source - source,
                           \<lambda>(selector, payload1, payload2, source, end_of_source, memory, into).
                             unat selector]")
  show "wf (measures [\<lambda>(selector, payload1, payload2, source, end_of_source, memory, into).
                             end_of_source - source,
                           \<lambda>(selector :: 64 word, payload1 :: m256i, payload2 :: m256i, source :: nat,
                              end_of_source :: nat, memory :: 32 word list, into :: 32 word list).
                             unat selector])"
    by simp
next
  fix selector :: "64 word" and payload1 payload2 :: m256i and source end_of_source :: nat
    and memory into :: "32 word list"
    and x :: "64 word \<times> m256i \<times> m256i \<times> nat" and selector1 :: "64 word"
    and y :: "m256i \<times> m256i \<times> nat" and payload1' :: m256i and ya :: "m256i \<times> nat"
    and payload2' :: m256i and source1 :: nat and xa :: nat and xb :: m256i
  assume a1: "\<not> (selector = 0 \<and> end_of_source \<le> source)"
    and x: "x = (if selector = 0
                then (ucast (memory ! (source div 4)),
                      take 8 (drop (source div 4 + 1) memory),
                      take 8 (drop (source div 4 + 9) memory),
                      source + 68)
                else (selector, payload1, payload2, source))"
    and x1: "(selector1, y) = x" and y: "(payload1', ya) = y" and ya: "(payload2', source1) = ya"
    and xa: "xa = find_first_set_bit selector1"
  have shrink: "unat (drop_bit (find_first_set_bit s) s) < unat s" if "s \<noteq> 0" for s :: "64 word"
  proof -
    from that obtain n where n: "bit s n"
      by (auto simp: bit_eq_iff)
    then have "n < 64"
      using bit_imp_le_length [of s n] by simp
    with n have "find (bit s) [0 ..< 64] \<noteq> None"
      by (simp only: find_None_iff) (metis atLeastLessThan_iff set_upt zero_le)
    then have pos: "0 < find_first_set_bit s"
      by (auto simp: find_first_set_bit_def split: option.splits simp del: upt_rec_numeral)
    have "unat (drop_bit (find_first_set_bit s) s) = drop_bit (find_first_set_bit s) (unat s)"
      by (rule unat_drop_bit_eq)
    then have "unat (drop_bit (find_first_set_bit s) s) = unat s div 2 ^ find_first_set_bit s"
      by (simp only: drop_bit_eq_div)
    moreover have "0 < unat s"
      using that by (simp add: unat_gt_0)
    moreover have "(2 :: nat) \<le> 2 ^ find_first_set_bit s"
      using pos by (metis One_nat_def Suc_leI one_le_numeral power_increasing power_one_right)
    ultimately show ?thesis
      by (metis div_less_dividend less_le_trans Suc_1 lessI)
  qed
  show "((drop_bit xa selector1, map (drop_bit xa) payload1', map (drop_bit xa) payload2',
           source1, end_of_source, memory,
           into @ map2 (AND) payload1' xb @ map2 (AND) payload2' xb),
          selector, payload1, payload2, source, end_of_source, memory, into)
         \<in> measures [\<lambda>(selector, payload1, payload2, source, end_of_source, memory, into).
                             end_of_source - source,
                           \<lambda>(selector, payload1, payload2, source, end_of_source, memory, into).
                             unat selector]"
  proof (cases "selector = 0")
    case True
    with a1 x x1 y ya show ?thesis by auto
  next
    case False
    with x x1 y ya have "selector1 = selector" "source1 = source" by auto
    with shrink [OF False] xa show ?thesis by simp
  qed
qed

declare decode_loop.simps [simp del]

definition decode :: "nat \<Rightarrow> 32 word list \<Rightarrow> nat \<Rightarrow> error + 32 word list" where
  "decode integers_to_decode source source_length =
     decode_loop 0 (replicate 8 0) (replicate 8 0) 0 source_length source []"

text \<open>
  The width extraction of the decoder on its own: the widths that the loop above reads
  off one selector, \<open>width = find_first_set_bit (selector)\<close> and \<open>selector >>= width\<close>
  until the selector is 0.
\<close>

function selector_widths :: "64 word \<Rightarrow> nat list" where
  "selector_widths selector =
     (if selector = 0 then []
      else (let width = find_first_set_bit selector
            in width # selector_widths (drop_bit width selector)))"
  by pat_completeness auto

termination
proof (relation "measure unat")
  show "wf (measure (unat :: 64 word \<Rightarrow> nat))" by simp
next
  fix selector :: "64 word" and x :: nat
  assume nz: "selector \<noteq> 0" and x: "x = find_first_set_bit selector"
  from nz obtain n where n: "bit selector n"
    by (auto simp: bit_eq_iff)
  then have "n < 64"
    using bit_imp_le_length [of selector n] by simp
  with n have "find (bit selector) [0 ..< 64] \<noteq> None"
    by (simp only: find_None_iff) (metis atLeastLessThan_iff set_upt zero_le)
  then have pos: "0 < x"
    by (auto simp: x find_first_set_bit_def split: option.splits simp del: upt_rec_numeral)
  have "unat (drop_bit x selector) = drop_bit x (unat selector)"
    by (rule unat_drop_bit_eq)
  then have "unat (drop_bit x selector) = unat selector div 2 ^ x"
    by (simp only: drop_bit_eq_div)
  moreover have "0 < unat selector"
    using nz by (simp add: unat_gt_0)
  moreover have "(2 :: nat) \<le> 2 ^ x"
    using pos by (metis One_nat_def Suc_leI one_le_numeral power_increasing power_one_right)
  ultimately have "unat (drop_bit x selector) < unat selector"
    by (metis div_less_dividend less_le_trans Suc_1 lessI)
  then show "(drop_bit x selector, selector) \<in> measure unat" by simp
qed

declare selector_widths.simps [simp del]

subsection \<open>Notions used to state the properties of the codec\<close>

text \<open>One turn of the second loop of \<open>compute_selector\<close>.\<close>

definition selector_step :: "nat \<Rightarrow> 32 word \<Rightarrow> 32 word" where
  "selector_step w v = push_bit w v OR push_bit (w - 1) 1"

text \<open>The next sixteen integers of the input, with 0 beyond its end.\<close>

definition column_group :: "32 word list \<Rightarrow> 32 word list" where
  "column_group a = map (\<lambda>word. if word < length a then a ! word else 0) [0 ..< WORDS]"

text \<open>
  The slices that one turn of the \<open>for\<close> loop of \<open>encode\<close> packs from slice number
  \<open>slice'\<close> on: each with its width and its sixteen integers.
\<close>

function plan :: "nat \<Rightarrow> nat \<Rightarrow> 32 word list \<Rightarrow> (nat \<times> 32 word list) list" where
  "plan slice' remaining' a =
     (if slice' < 32 \<and> column_width a \<le> remaining'
      then (column_width a, column_group a)
           # (if WORDS \<ge> length a then []
              else plan (slice' + 1) (remaining' - column_width a) (drop WORDS a))
      else [])"
  by pat_completeness auto

termination
  by (relation "measure (\<lambda>(slice', remaining', a). 32 - slice')") auto

declare plan.simps [simp del]

text \<open>The sixteen payload words that hold a list of slices, the first slice lowest.\<close>

fun pack_lanes :: "(nat \<times> 32 word list) list \<Rightarrow> 32 word list" where
  "pack_lanes [] = replicate WORDS 0"
| "pack_lanes ((w, g) # rest) = map2 (\<lambda>v p. v OR push_bit w p) g (pack_lanes rest)"

text \<open>The payload after one more slice is ORed in at \<open>c\<close> bits.\<close>

definition step_payload :: "nat \<Rightarrow> 32 word list \<Rightarrow> 32 word list \<Rightarrow> 32 word list" where
  "step_payload c d a =
     map (\<lambda>word. d ! word OR push_bit c (if word < length a then a ! word else 0)) [0 ..< WORDS]"

text \<open>The state in which \<open>pack_slices\<close> ends, given the slices it packs.\<close>

definition packed_of ::
  "nat \<Rightarrow> nat \<Rightarrow> nat \<Rightarrow> nat list \<Rightarrow> 32 word list \<Rightarrow> 32 word list \<Rightarrow> (nat \<times> 32 word list) list \<Rightarrow> packed" where
  "packed_of s r c e d a sl =
     \<lparr>finished = (sl \<noteq> [] \<and> length a \<le> 16 * length sl),
      slice = (if sl \<noteq> [] \<and> length a \<le> 16 * length sl then s + length sl - 1 else s + length sl),
      remaining = r - sum_list (map fst sl),
      encodings = take s e @ map fst sl @ drop (s + length sl) e,
      payload = map2 (\<lambda>x p. x OR push_bit c p) d (pack_lanes sl),
      array = drop (16 * length sl) a\<rparr>"

text \<open>
  Every slice has a width of at least 1 and sixteen integers, each of which fits the width.
\<close>

definition valid_slices :: "(nat \<times> 32 word list) list \<Rightarrow> bool" where
  "valid_slices sl \<longleftrightarrow>
     list_all (\<lambda>x. 1 \<le> fst x \<and> length (snd x) = 16 \<and> list_all (\<lambda>v. take_bit (fst x) v = v) (snd x)) sl"

text \<open>
  The slices of the first frame of an input, the last one widened by the bits left over.
\<close>

definition frame_slices :: "32 word list \<Rightarrow> (nat \<times> 32 word list) list" where
  "frame_slices a =
     (let sl = plan 0 32 a
      in butlast sl @ [(fst (last sl) + (32 - sum_list (map fst sl)), snd (last sl))])"

text \<open>
  The widths array when the selector is computed: the last width padded, then the sentinel.
\<close>

definition pad_encodings :: "packed \<Rightarrow> nat list" where
  "pad_encodings p =
     (if finished p
      then ((encodings p)[slice p := (encodings p ! slice p + remaining p) mod 256])[slice p + 1 := 0]
      else ((encodings p)[slice p - 1 := (encodings p ! (slice p - 1) + remaining p) mod 256])[slice p := 0])"

section \<open>Properties of pointer_box\<close>

lemma compare_less_iff: "compare m x y < 0 \<longleftrightarrow> operator_less m x y"
  by (auto simp: compare_def operator_less_def)

lemma compare_greater_iff: "compare m x y > 0 \<longleftrightarrow> operator_less m y x"
  by (auto simp: compare_def operator_less_def)

lemma compare_zero_iff: "compare m x y = 0 \<longleftrightarrow> x = y"
  by (auto simp: compare_def)

text \<open>
  The strict order and \<open>compare\<close> are by the value pointed to, and by address when the
  values are equal. For the array \<open>{6, 3, 6}\<close> of the unit test, with \<open>a\<close>, \<open>b\<close>, \<open>c\<close>
  boxing its three elements in order, the strict order is \<open>b < a < c\<close>.
\<close>

lemma pointer_box_strict_order:
  fixes m0 :: "int memory" and p :: address
  defines "m \<equiv> unittest_array m0 p"
  defines "a \<equiv> pointer_box p" and "b \<equiv> pointer_box (p + 4)" and "c \<equiv> pointer_box (p + 8)"
  shows "operator_less m b a \<and> operator_less m a c \<and> operator_less m b c
       \<and> \<not> operator_less m a b \<and> \<not> operator_less m c a \<and> \<not> operator_less m c b
       \<and> \<not> operator_less m a a
       \<and> compare m a b > 0 \<and> compare m a c < 0 \<and> compare m a a = 0
       \<and> compare m b a < 0 \<and> compare m c a > 0 \<and> compare m b c < 0 \<and> compare m c b > 0
       \<and> (\<forall>(h :: int memory) x y.
             (operator_less h x y \<longleftrightarrow>
                h (element x) < h (element y) \<or> (h (element x) = h (element y) \<and> element x < element y))
           \<and> (compare h x y < 0 \<longleftrightarrow> operator_less h x y)
           \<and> (compare h x y = 0 \<longleftrightarrow> x = y)
           \<and> (compare h x y > 0 \<longleftrightarrow> operator_less h y x))"
  unfolding m_def a_def b_def c_def
  by (auto simp: compare_def operator_less_def unittest_array_def pointer_box_def)


text \<open>
  C8. The comparison operators order boxes by the value pointed to, and the class comment
  (pointer\_box.h l.34) says that ties are broken on the value of the pointer. \<open>operator<\<close>,
  \<open>operator>\<close> and \<open>compare\<close> do so, but \<open>operator<=\<close> (l.108-111) and \<open>operator>=\<close>
  (l.136-139) test the pointees with \<open><=\<close> and \<open>>=\<close> first, so that on equal pointees they
  are true whatever the addresses. For the array \<open>{6, 3, 6}\<close> with \<open>a\<close>, \<open>b\<close>, \<open>c\<close> boxing its
  three elements in order, \<open>b < a < c\<close> holds strictly and \<open>compare\<close> agrees with it, and
  yet \<open>c <= a\<close> and \<open>a >= c\<close> hold as well: \<open><=\<close> and \<open>>=\<close> are decided by the pointees alone.
\<close>

theorem pointer_box_less_eq_ignores_address:
  fixes m0 :: "int memory" and p :: address
  defines "m \<equiv> unittest_array m0 p"
  defines "a \<equiv> pointer_box p" and "b \<equiv> pointer_box (p + 4)" and "c \<equiv> pointer_box (p + 8)"
  shows "operator_less m b a \<and> operator_less m a c \<and> operator_less m b c
       \<and> \<not> operator_less m c a \<and> operator_greater m c a \<and> \<not> operator_greater m a c
       \<and> compare m a c < 0 \<and> compare m c a > 0 \<and> compare m b a < 0 \<and> compare m a a = 0
       \<and> \<not> operator_equal m a c
       \<and> operator_less_eq m a c \<and> operator_less_eq m c a
       \<and> operator_greater_eq m a c \<and> operator_greater_eq m c a
       \<and> (\<forall>(h :: int memory) x y.
             (operator_less_eq h x y \<longleftrightarrow> h (element x) \<le> h (element y))
           \<and> (operator_greater_eq h x y \<longleftrightarrow> h (element x) \<ge> h (element y)))"
  unfolding m_def a_def b_def c_def
  by (auto simp: compare_def operator_less_def operator_greater_def operator_less_eq_def
      operator_greater_eq_def operator_equal_def unittest_array_def
      pointer_box_def)
section \<open>Properties of index_postings\<close>

lemma saturate_step:
  "k \<ge> 1 \<Longrightarrow> (if saturate k \<le> 0xFFFE then saturate k + 1 else saturate k) = saturate (Suc k)"
proof -
  assume "k \<ge> 1"
  show ?thesis
  proof (cases "k < 65535")
    case True
    then have u: "unat (saturate k) = k"
      by (simp add: saturate_def unat_of_nat min_def)
    have "saturate k \<le> 0xFFFE"
      using True u by (simp add: word_le_nat_alt)
    moreover have "saturate k + 1 = saturate (Suc k)"
      using True by (simp add: saturate_def min_def)
    ultimately show ?thesis by simp
  next
    case False
    then have "saturate k = 0xFFFF" "saturate (Suc k) = 0xFFFF"
      by (simp_all add: saturate_def min_def)
    then show ?thesis by simp
  qed
qed

lemma push_back_repeat:
  "k \<ge> 1 \<Longrightarrow> highest_document this = d \<Longrightarrow> term_frequencies this = fs @ [saturate k] \<Longrightarrow>
   \<exists>this'. push_back_all this (map (Pair d) ps) = Inr this'
        \<and> highest_document this' = d
        \<and> document_ids this' = document_ids this
        \<and> term_frequencies this' = fs @ [saturate (k + length ps)]"
proof (induction ps arbitrary: this k)
  case Nil
  then show ?case by simp
next
  case (Cons p ps)
  define this1 where "this1 = this\<lparr>term_frequencies := fs @ [saturate (Suc k)],
                        positions := positions this @ [ucast p],
                        highest_position := p\<rparr>"
  have step: "push_back this d p = Inr this1"
    using Cons.prems saturate_step [of k]
    by (simp add: push_back_def this1_def Let_def)
  have "\<exists>this'. push_back_all this1 (map (Pair d) ps) = Inr this'
        \<and> highest_document this' = d
        \<and> document_ids this' = document_ids this1
        \<and> term_frequencies this' = fs @ [saturate (Suc k + length ps)]"
    by (rule Cons.IH) (use Cons.prems in \<open>simp_all add: this1_def\<close>)
  then show ?case
    by (auto simp: step this1_def)
qed

lemma push_back_same_document:
  assumes "d \<noteq> highest_document this"
  shows "\<exists>this'. push_back_all this (map (Pair d) (p # ps)) = Inr this'
        \<and> document_ids this' = document_ids this @ [ucast d]
        \<and> term_frequencies this' = term_frequencies this @ [saturate (Suc (length ps))]"
proof -
  define this1 where "this1 = this\<lparr>document_ids := document_ids this @ [ucast d],
                  highest_document := d,
                  term_frequencies := term_frequencies this @ [1],
                  positions := positions this @ [ucast p],
                  highest_position := p\<rparr>"
  have step: "push_back this d p = Inr this1"
    using assms by (simp add: push_back_def this1_def)
  have "\<exists>this'. push_back_all this1 (map (Pair d) ps) = Inr this'
        \<and> highest_document this' = d
        \<and> document_ids this' = document_ids this1
        \<and> term_frequencies this' = term_frequencies this @ [saturate (1 + length ps)]"
    by (rule push_back_repeat) (simp_all add: this1_def saturate_def)
  then show ?thesis
    by (auto simp: step this1_def)
qed

text \<open>
  C2 (amended). Pushing one document id (other than the initial \<open>highest_document\<close>, 0)
  any number of times, at least once, into a new accumulator leaves one document whose
  term frequency is the number of pushes held at \<open>0xFFFF\<close>: the guard
  \<open>frequency <= 0xFFFE\<close> still increments \<open>0xFFFE\<close>.
\<close>

theorem tf_saturates_at_FFFF:
  "d \<noteq> 0 \<Longrightarrow> ps \<noteq> [] \<Longrightarrow>
   \<exists>this'. push_back_all index_postings (map (Pair d) ps) = Inr this'
        \<and> document_ids this' = [ucast d]
        \<and> term_frequencies this' = [word_of_nat (min (length ps) 0xFFFF)]"
  using push_back_same_document [of d index_postings "hd ps" "tl ps"]
  by (cases ps) (simp_all add: index_postings_def saturate_def)

theorem tf_saturates_at_FFFF_witness:
  "(1 :: 64 word) \<noteq> 0 \<and> map word_of_nat [1 ..< 70001] \<noteq> ([] :: 64 word list) \<and>
   (\<exists>this'. push_back_all index_postings (map (Pair 1) (map word_of_nat [1 ..< 70001])) = Inr this'
        \<and> document_ids this' = [1]
        \<and> term_frequencies this' = [0xFFFF])"
proof -
  define ps :: "64 word list" where "ps = map word_of_nat [1 ..< 70001]"
  have len: "length ps = 70000"
    unfolding ps_def by (simp only: length_map length_upt)
  then have ne: "ps \<noteq> []" by auto
  have "(1 :: 64 word) \<noteq> 0 \<and> ps \<noteq> [] \<and>
   (\<exists>this'. push_back_all index_postings (map (Pair 1) ps) = Inr this'
        \<and> document_ids this' = [1]
        \<and> term_frequencies this' = [0xFFFF])"
    using tf_saturates_at_FFFF [of 1 ps] ne by (simp add: len)
  then show ?thesis unfolding ps_def .
qed

text \<open>A million pushes of document 1 leave its term frequency at \<open>0xFFFF\<close>, not \<open>0xFFFE\<close>.\<close>

theorem tf_million_counterexample:
  "map_sum id term_frequencies
     (push_back_all index_postings (map (Pair 1) (map word_of_nat [1 ..< 1000001]))) = Inr [0xFFFF]"
proof -
  define ps :: "64 word list" where "ps = map word_of_nat [1 ..< 1000001]"
  have len: "length ps = 1000000"
    unfolding ps_def by (simp only: length_map length_upt)
  then obtain p ps' where ps: "ps = p # ps'"
    by (cases ps) auto
  with len have len': "length ps' = 999999" by simp
  have "\<exists>this'. push_back_all index_postings (map (Pair 1) (p # ps')) = Inr this'
        \<and> document_ids this' = document_ids index_postings @ [ucast (1 :: 64 word)]
        \<and> term_frequencies this' = term_frequencies index_postings @ [saturate (Suc (length ps'))]"
    by (rule push_back_same_document) (simp add: index_postings_def)
  then have "map_sum id term_frequencies (push_back_all index_postings (map (Pair 1) ps)) = Inr [0xFFFF]"
    unfolding ps [symmetric] by (auto simp: len' index_postings_def saturate_def)
  then show ?thesis unfolding ps_def .
qed

text \<open>
  C10. \<open>highest_document\<close> starts at 0. \<open>push_back\<close> appends a new document id, with
  term frequency 1, exactly when the document id differs from \<open>highest_document\<close>;
  otherwise it leaves the document ids alone and reads the last term frequency. On a new
  accumulator \<open>push_back (0, p)\<close> therefore takes the repeated-document branch and calls
  \<open>back\<close> on the empty array of term frequencies, while any other document id succeeds.
\<close>

theorem push_back_new_document:
  "highest_document index_postings = 0
   \<and> term_frequencies index_postings = []
   \<and> (d \<noteq> highest_document this \<longrightarrow>
        (\<exists>this'. push_back this d p = Inr this'
           \<and> document_ids this' = document_ids this @ [ucast d]
           \<and> term_frequencies this' = term_frequencies this @ [1]
           \<and> highest_document this' = d))
   \<and> (d = highest_document this \<and> term_frequencies this \<noteq> [] \<longrightarrow>
        (\<exists>this'. push_back this d p = Inr this'
           \<and> document_ids this' = document_ids this
           \<and> length (term_frequencies this') = length (term_frequencies this)
           \<and> highest_document this' = d))
   \<and> (d = highest_document this \<and> term_frequencies this = [] \<longrightarrow>
        push_back this d p = Inl BackOfEmptyArray)
   \<and> push_back index_postings 0 p = Inl BackOfEmptyArray
   \<and> (d \<noteq> 0 \<longrightarrow> (\<exists>this'. push_back index_postings d p = Inr this'))"
  by (auto simp: push_back_def index_postings_def Let_def)

theorem push_back_new_document_witness:
  "push_back index_postings 0 100 = Inl BackOfEmptyArray
   \<and> (\<exists>this'. push_back index_postings 1 100 = Inr this'
         \<and> document_ids this' = [1] \<and> term_frequencies this' = [1] \<and> highest_document this' = 1)
   \<and> (\<exists>this'. push_back \<lparr>highest_document = 1, highest_position = 100, document_ids = [1],
                term_frequencies = [1], positions = [100]\<rparr> 1 101 = Inr this'
         \<and> document_ids this' = [1] \<and> length (term_frequencies this') = 1)"
  using push_back_new_document [of 1 index_postings 100]
    push_back_new_document [of 1 "\<lparr>highest_document = 1, highest_position = 100, document_ids = [1],
                term_frequencies = [1], positions = [100]\<rparr>" 101]
  by (auto simp: index_postings_def)

text \<open>
  C7. Pushing \<open>(1,100)\<close>, \<open>(1,101)\<close>, \<open>(2,102)\<close>, \<open>(2,103)\<close> into a new accumulator
  and rendering it writes exactly \<open><1,2,100,101><2,2,102,103>\<close>.
\<close>

theorem text_render_unittest:
  "(case push_back_all index_postings [(1, 100), (1, 101), (2, 102), (2, 103)] of
      Inl e \<Rightarrow> Inl e
    | Inr postings \<Rightarrow> text_render postings [])
   = Inr ''<1,2,100,101><2,2,102,103>''"
  by (simp add: index_postings_def push_back_def text_render_def begin_postings_def
      end_postings_def iterator_def operator_differs_def operator_deref_def
      operator_increment_def Let_def decimal.simps digit_def)

section \<open>Properties of the printer\<close>

lemma printer_loop_filter:
  "which + n = length each \<Longrightarrow>
   printer_push_back_loop this each which n cout =
     cout @ concat (map (\<lambda>d. ''<'' @ decimal (unat d) @ '','' @ decimal (unat (impact this)) @ ''>'')
                        (filter (\<lambda>d. d \<noteq> 0) (drop which each)))"
proof (induction n arbitrary: which cout)
  case 0
  then show ?case by simp
next
  case (Suc n)
  then have w: "which < length each" by simp
  from Suc.prems have "Suc which + n = length each" by simp
  note IH = Suc.IH [OF this]
  show ?case
    using w by (simp add: IH Cons_nth_drop_Suc [symmetric])
qed

text \<open>
  C9. After \<open>set_score\<close>, \<open>push_back\<close> of a register of eight document ids writes
  \<open><doc,impact>\<close> for exactly the lanes that hold a non-zero document id, in lane order;
  a lane holding 0 writes nothing.
\<close>

theorem printer_push_back_filters_zero:
  "length lanes = 8 \<Longrightarrow>
   printer_push_back (set_score this score) lanes cout =
     cout @ concat (map (\<lambda>d. ''<'' @ decimal (unat d) @ '','' @ decimal (unat score) @ ''>'')
                        (filter (\<lambda>d. d \<noteq> 0) lanes))"
  by (simp add: printer_push_back_def printer_loop_filter set_score_def)

theorem printer_push_back_filters_zero_witness:
  "length [7, 0, 0, 12, 0, 0, 0, 3 :: 32 word] = 8 \<and>
   printer_push_back (set_score \<lparr>impact = 0\<rparr> 9) [7, 0, 0, 12, 0, 0, 0, 3] ''x'' = ''x<7,9><12,9><3,9>''"
  using printer_push_back_filters_zero [of "[7, 0, 0, 12, 0, 0, 0, 3]" "\<lparr>impact = 0\<rparr>" 9 "''x''"]
  by (simp add: decimal.simps digit_def)

section \<open>Properties of the quantizer\<close>

subsection \<open>Rounding to the nearest double\<close>

lemma floor_log2_small: "n < 2 \<Longrightarrow> floor_log2 n = 0"
  by (subst floor_log2.simps) simp

lemma floor_log2_bounds:
  "0 < n \<Longrightarrow> 0 \<le> floor_log2 n \<and> 2 ^ nat (floor_log2 n) \<le> n \<and> n < 2 * 2 ^ nat (floor_log2 n)"
proof (induction n rule: floor_log2.induct)
  case (1 n)
  show ?case
  proof (cases "n < 2")
    case True
    with "1.prems" show ?thesis by (simp add: floor_log2_small)
  next
    case False
    define k where "k = floor_log2 (n div 2)"
    have pos: "0 < n div 2" using False by simp
    from "1.IH" [OF False pos] have ih: "0 \<le> k" "2 ^ nat k \<le> n div 2" "n div 2 < 2 * 2 ^ nat k"
      by (simp_all add: k_def)
    have eq: "floor_log2 n = 1 + k"
      using False by (subst floor_log2.simps) (simp add: k_def)
    have n: "nat (1 + k) = Suc (nat k)" using ih(1) by simp
    have "(2::int) * 2 ^ nat k \<le> n" using ih(2) by linarith
    moreover have "n < 2 * (2 * 2 ^ nat k)" using ih(3) by linarith
    ultimately show ?thesis
      unfolding eq n using ih(1) by simp
  qed
qed

lemma exponent_ge: "- 1022 \<le> exponent a"
  by (simp add: exponent_def)

lemma two_powi_nat: "0 \<le> k \<Longrightarrow> (2::real) powi k = 2 ^ nat k"
  by (simp add: power_int_def)

lemma exponent_upper:
  assumes "0 \<le> a"
  shows "a < 2 powi (exponent a + 1)"
proof -
  define x where "x = \<lfloor>a * 2 ^ 1074\<rfloor>"
  have x0: "0 \<le> x" using assms by (simp add: x_def)
  have ax: "a * 2 ^ 1074 < of_int x + 1" by (simp add: x_def)
  show ?thesis
  proof (cases "x = 0")
    case True
    with ax have "a * 2 ^ 1074 < 1" by simp
    then have "a < 1 / 2 ^ 1074" by (simp add: field_simps)
    also have "\<dots> = 2 powi (- 1074)" by (simp add: power_int_minus_divide)
    also have "\<dots> \<le> 2 powi (exponent a + 1)"
      by (rule power_int_increasing) (use exponent_ge [of a] in simp_all)
    finally show ?thesis .
  next
    case False
    with x0 have xp: "0 < x" by simp
    define k where "k = floor_log2 x"
    from floor_log2_bounds [OF xp] have k: "0 \<le> k" "x < 2 * 2 ^ nat k"
      by (simp_all add: k_def)
    from k(2) have "x + 1 \<le> 2 * 2 ^ nat k" by simp
    then have "real_of_int (x + 1) \<le> real_of_int (2 * 2 ^ nat k)" by (rule of_int_le_iff [THEN iffD2])
    then have "of_int x + 1 \<le> (2::real) * 2 ^ nat k" by simp
    with ax have "a * 2 ^ 1074 < 2 * 2 ^ nat k" by linarith
    also have "\<dots> = 2 powi (k + 1)"
    proof -
      have "(2::real) powi (k + 1) = 2 powi k * 2" by (rule power_int_add_1) simp
      then show ?thesis by (simp only: two_powi_nat [OF k(1)] mult.commute)
    qed
    finally have "a < 2 powi (k + 1) / 2 ^ 1074" by (simp add: field_simps)
    also have "\<dots> = 2 powi (k + 1 - 1074)"
      by (subst power_int_diff) simp_all
    also have "\<dots> \<le> 2 powi (exponent a + 1)"
      by (rule power_int_increasing) (simp_all add: exponent_def x_def k_def)
    finally show ?thesis .
  qed
qed

lemma exponent_lower:
  assumes "exponent a \<noteq> - 1022"
  shows "2 powi (exponent a) \<le> a"
proof -
  define x where "x = \<lfloor>a * 2 ^ 1074\<rfloor>"
  define k where "k = floor_log2 x"
  from assms have e: "exponent a = k - 1074" and big: "- 1022 < k - 1074"
    by (auto simp: exponent_def x_def k_def max_def split: if_splits)
  have xp: "0 < x"
  proof (rule ccontr)
    assume "\<not> 0 < x"
    then have "floor_log2 x = 0" by (simp add: floor_log2_small)
    with big show False by (simp add: k_def)
  qed
  from floor_log2_bounds [OF xp] have k: "0 \<le> k" "2 ^ nat k \<le> x" by (simp_all add: k_def)
  have "(2::real) powi k = of_int (2 ^ nat k)" using k(1) by (simp add: two_powi_nat)
  also have "\<dots> \<le> of_int x" using k(2) by (rule of_int_le_iff [THEN iffD2])
  also have "\<dots> \<le> a * 2 ^ 1074" by (simp add: x_def)
  finally have "2 powi k / 2 ^ 1074 \<le> a" by (simp add: field_simps)
  moreover have "(2::real) powi k / 2 ^ 1074 = 2 powi (k - 1074)" by (simp add: power_int_diff)
  ultimately show ?thesis by (simp add: e)
qed

lemma exponent_eqI:
  assumes "2 powi e \<le> a" "a < 2 powi (e + 1)" "- 1022 \<le> e"
  shows "exponent a = e"
proof -
  have a0: "0 \<le> a" using assms(1) zero_less_power_int [of "2::real" e] by linarith
  show ?thesis
  proof (rule antisym)
    show "exponent a \<le> e"
    proof (rule ccontr)
      assume "\<not> exponent a \<le> e"
      then have lt: "e + 1 \<le> exponent a" by simp
      with assms(3) have "exponent a \<noteq> - 1022" by simp
      then have "2 powi (exponent a) \<le> a" by (rule exponent_lower)
      moreover have "(2::real) powi (e + 1) \<le> 2 powi (exponent a)"
        by (rule power_int_increasing) (use lt in simp_all)
      ultimately show False using assms(2) by linarith
    qed
    show "e \<le> exponent a"
    proof (rule ccontr)
      assume "\<not> e \<le> exponent a"
      then have lt: "exponent a + 1 \<le> e" by simp
      have "(2::real) powi (exponent a + 1) \<le> 2 powi e"
        by (rule power_int_increasing) (use lt in simp_all)
      with exponent_upper [OF a0] assms(1) show False by linarith
    qed
  qed
qed

lemma exponent_mono:
  assumes "0 \<le> a" "a \<le> b"
  shows "exponent a \<le> exponent b"
proof (rule ccontr)
  assume "\<not> exponent a \<le> exponent b"
  then have lt: "exponent b + 1 \<le> exponent a" by simp
  with exponent_ge [of b] have "exponent a \<noteq> - 1022" by simp
  then have "2 powi (exponent a) \<le> a" by (rule exponent_lower)
  moreover have "(2::real) powi (exponent b + 1) \<le> 2 powi (exponent a)"
    by (rule power_int_increasing) (use lt in simp_all)
  moreover have "b < 2 powi (exponent b + 1)"
    by (rule exponent_upper) (use assms in simp)
  ultimately show False using assms(2) by linarith
qed

lemma round_half_even_of_int: "round_half_even (of_int k) = k"
  by (simp add: round_half_even_def)

lemma round_half_even_floor: "\<lfloor>y\<rfloor> \<le> round_half_even y \<and> round_half_even y \<le> \<lfloor>y\<rfloor> + 1"
  by (simp add: round_half_even_def)

lemma round_half_even_mono:
  assumes "y \<le> z"
  shows "round_half_even y \<le> round_half_even z"
proof (cases "\<lfloor>y\<rfloor> = \<lfloor>z\<rfloor>")
  case True
  then show ?thesis
    using assms by (auto simp: round_half_even_def)
next
  case False
  with assms have "\<lfloor>y\<rfloor> + 1 \<le> \<lfloor>z\<rfloor>"
    using floor_mono [OF assms] by linarith
  then show ?thesis
    using round_half_even_floor [of y] round_half_even_floor [of z] by linarith
qed

lemma round_half_even_ge: "of_int k \<le> y \<Longrightarrow> k \<le> round_half_even y"
  using round_half_even_mono [of "of_int k" y] by (simp add: round_half_even_of_int)

lemma round_half_even_le: "y \<le> of_int k \<Longrightarrow> round_half_even y \<le> k"
  using round_half_even_mono [of y "of_int k"] by (simp add: round_half_even_of_int)

lemma ulp_pos: "0 < (2::real) powi (exponent a - 52)"
  by (rule zero_less_power_int) simp

lemma round_magnitude_nonneg:
  assumes "0 \<le> a"
  shows "0 \<le> round_magnitude a"
proof -
  have "0 \<le> a / 2 powi (exponent a - 52)"
    using assms ulp_pos [of a] by simp
  then have "0 \<le> round_half_even (a / 2 powi (exponent a - 52))"
    using round_half_even_ge [of 0] by simp
  then show ?thesis
    unfolding round_magnitude_def using ulp_pos [of a] by simp
qed

lemma round_magnitude_upper:
  assumes "0 \<le> a"
  shows "round_magnitude a \<le> 2 powi (exponent a + 1)"
proof -
  define u :: real where "u = 2 powi (exponent a - 52)"
  have u: "0 < u" by (simp add: u_def ulp_pos)
  have split: "(2::real) powi (exponent a + 1) = u * 2 ^ 53"
  proof -
    have "exponent a + 1 = (exponent a - 52) + 53" by arith
    then have "(2::real) powi (exponent a + 1) = 2 powi ((exponent a - 52) + 53)" by (rule arg_cong)
    also have "\<dots> = 2 powi (exponent a - 52) * 2 powi 53"
      by (rule power_int_add) simp
    finally show ?thesis by (simp add: u_def)
  qed
  have "a < u * 2 ^ 53"
    using exponent_upper [OF assms] by (simp add: split)
  then have "a / u \<le> of_int (2 ^ 53)"
    using u by (simp add: field_simps)
  then have "round_half_even (a / u) \<le> 2 ^ 53"
    by (rule round_half_even_le)
  then have "real_of_int (round_half_even (a / u)) \<le> real_of_int (2 ^ 53)"
    by (rule of_int_le_iff [THEN iffD2])
  then have "u * of_int (round_half_even (a / u)) \<le> u * 2 ^ 53"
    using u by simp
  then show ?thesis
    by (simp add: round_magnitude_def u_def [symmetric] split)
qed

lemma round_magnitude_lower:
  assumes "exponent a \<noteq> - 1022"
  shows "2 powi (exponent a) \<le> round_magnitude a"
proof -
  define u :: real where "u = 2 powi (exponent a - 52)"
  have u: "0 < u" by (simp add: u_def ulp_pos)
  have split: "(2::real) powi (exponent a) = u * 2 ^ 52"
  proof -
    have "exponent a = (exponent a - 52) + 52" by arith
    then have "(2::real) powi (exponent a) = 2 powi ((exponent a - 52) + 52)" by (rule arg_cong)
    also have "\<dots> = 2 powi (exponent a - 52) * 2 powi 52"
      by (rule power_int_add) simp
    finally show ?thesis by (simp add: u_def)
  qed
  have "u * 2 ^ 52 \<le> a"
    using exponent_lower [OF assms] by (simp add: split)
  then have "of_int (2 ^ 52) \<le> a / u"
    using u by (simp add: field_simps)
  then have "2 ^ 52 \<le> round_half_even (a / u)"
    by (rule round_half_even_ge)
  then have "real_of_int (2 ^ 52) \<le> real_of_int (round_half_even (a / u))"
    by (rule of_int_le_iff [THEN iffD2])
  then have "u * 2 ^ 52 \<le> u * of_int (round_half_even (a / u))"
    using u by simp
  then show ?thesis
    by (simp add: round_magnitude_def u_def [symmetric] split)
qed

lemma round_magnitude_mono:
  assumes "0 \<le> a" "a \<le> b"
  shows "round_magnitude a \<le> round_magnitude b"
proof (cases "exponent a = exponent b")
  case True
  define u :: real where "u = 2 powi (exponent b - 52)"
  have u: "0 < u" by (simp add: u_def ulp_pos)
  have "a / u \<le> b / u" using assms(2) u by (simp add: divide_right_mono)
  then have "round_half_even (a / u) \<le> round_half_even (b / u)"
    by (rule round_half_even_mono)
  then have "real_of_int (round_half_even (a / u)) \<le> real_of_int (round_half_even (b / u))"
    by (rule of_int_le_iff [THEN iffD2])
  then have "u * of_int (round_half_even (a / u)) \<le> u * of_int (round_half_even (b / u))"
    using u by simp
  then show ?thesis
    by (simp add: round_magnitude_def True u_def [symmetric])
next
  case False
  with exponent_mono [OF assms] have lt: "exponent a + 1 \<le> exponent b" by simp
  with exponent_ge [of a] have "exponent b \<noteq> - 1022" by simp
  then have "2 powi (exponent b) \<le> round_magnitude b" by (rule round_magnitude_lower)
  moreover have "(2::real) powi (exponent a + 1) \<le> 2 powi (exponent b)"
    by (rule power_int_increasing) (use lt in simp_all)
  moreover have "round_magnitude a \<le> 2 powi (exponent a + 1)"
    by (rule round_magnitude_upper) (rule assms(1))
  ultimately show ?thesis by linarith
qed

lemma round_magnitude_exact:
  assumes "a = 2 powi (exponent a - 52) * of_int k"
  shows "round_magnitude a = a"
proof -
  have "a / 2 powi (exponent a - 52) = of_int k"
    using ulp_pos [of a] by (subst assms) simp
  then show ?thesis
    unfolding round_magnitude_def by (simp add: round_half_even_of_int assms [symmetric])
qed

lemma round_magnitude_zero: "round_magnitude 0 = 0"
  by (simp add: round_magnitude_def round_half_even_def)

lemma round_to_nearest_zero: "round_to_nearest 0 = 0"
  by (simp add: round_to_nearest_def round_magnitude_zero)

lemma round_to_nearest_nonneg: "0 \<le> x \<Longrightarrow> 0 \<le> round_to_nearest x"
  by (simp add: round_to_nearest_def round_magnitude_nonneg)

lemma round_to_nearest_mono:
  assumes "x \<le> y"
  shows "round_to_nearest x \<le> round_to_nearest y"
proof (cases "x < 0")
  case xneg: True
  show ?thesis
  proof (cases "y < 0")
    case True
    have "round_magnitude (- y) \<le> round_magnitude (- x)"
      by (rule round_magnitude_mono) (use assms True in simp_all)
    then show ?thesis using xneg True by (simp add: round_to_nearest_def)
  next
    case False
    have "0 \<le> round_magnitude (- x)" "0 \<le> round_magnitude y"
      using xneg False by (simp_all add: round_magnitude_nonneg)
    then show ?thesis using xneg False by (simp add: round_to_nearest_def)
  qed
next
  case False
  with assms have "\<not> y < 0" by simp
  moreover have "round_magnitude x \<le> round_magnitude y"
    by (rule round_magnitude_mono) (use assms False in simp_all)
  ultimately show ?thesis using False by (simp add: round_to_nearest_def)
qed

lemma round_to_nearest_nat:
  assumes "n < 2 ^ 53"
  shows "round_to_nearest (real n) = real n"
proof (cases "n = 0")
  case True
  then show ?thesis by (simp add: round_to_nearest_zero)
next
  case False
  define a where "a = real n"
  define e where "e = exponent a"
  have a1: "1 \<le> a" using False by (simp add: a_def)
  have a2: "a < 2 ^ 53"
  proof -
    have "real n < real (2 ^ 53)" using assms by (rule of_nat_less_iff [THEN iffD2])
    then show ?thesis by (simp add: a_def)
  qed
  have e0: "0 \<le> e"
  proof (rule ccontr)
    assume "\<not> 0 \<le> e"
    then have "e + 1 \<le> 0" by simp
    then have "(2::real) powi (e + 1) \<le> 2 powi 0" by (rule power_int_increasing) simp
    with exponent_upper [of a] a1 show False by (simp add: e_def)
  qed
  have e52: "e \<le> 52"
  proof (rule ccontr)
    assume "\<not> e \<le> 52"
    then have lt: "53 \<le> e" by simp
    then have "e \<noteq> - 1022" by simp
    then have "2 powi e \<le> a" unfolding e_def by (rule exponent_lower)
    moreover have "(2::real) powi 53 \<le> 2 powi e" by (rule power_int_increasing) (use lt in simp_all)
    ultimately show False using a2 by simp
  qed
  define j where "j = nat (52 - e)"
  have u: "(2::real) powi (e - 52) = 1 / 2 ^ j"
  proof -
    have "(2::real) powi (e - 52) = 2 powi (- int j)" using e52 by (simp add: j_def)
    also have "\<dots> = 1 / 2 ^ j" by (simp add: power_int_minus_divide)
    finally show ?thesis .
  qed
  have "a = 2 powi (exponent a - 52) * of_int (int n * 2 ^ j)"
    unfolding e_def [symmetric] u by (simp add: a_def)
  then have "round_magnitude a = a" by (rule round_magnitude_exact)
  then show ?thesis using a1 by (simp add: round_to_nearest_def a_def)
qed

lemma DBL_MAX_ge: "x \<le> 2 ^ 1023 \<Longrightarrow> x < DBL_MAX"
proof -
  assume "x \<le> 2 ^ 1023"
  moreover have "(1 :: real) < 2 - 1 / 2 ^ 52"
    by simp
  then have "(1 :: real) * 2 ^ 1023 < (2 - 1 / 2 ^ 52) * 2 ^ 1023"
    by (rule mult_strict_right_mono) simp
  ultimately show ?thesis
    by (simp add: DBL_MAX_def)
qed

lemma DBL_MAX_pos: "0 < DBL_MAX"
  by (rule DBL_MAX_ge) simp

lemma to_double_nat:
  assumes "n < 2 ^ 53"
  shows "to_double (real n) = Finite (real n)"
proof -
  have "real n < real (2 ^ 53)" using assms by (rule of_nat_less_iff [THEN iffD2])
  then have "real n \<le> 2 ^ 53" by simp
  also have "(2::real) ^ 53 \<le> 2 ^ 1023" by (rule power_increasing) simp_all
  finally have "real n < DBL_MAX" by (rule DBL_MAX_ge)
  then show ?thesis
    using DBL_MAX_pos by (simp add: to_double_def round_to_nearest_nat [OF assms])
qed

lemma to_double_nonneg:
  assumes "0 \<le> x"
  shows "to_double x = PlusInfinity \<or> to_double x = Finite (round_to_nearest x)"
  using round_to_nearest_nonneg [OF assms] DBL_MAX_pos by (simp add: to_double_def)

lemma to_double_Finite:
  "to_double x = Finite r \<Longrightarrow> r = round_to_nearest x"
  by (simp add: to_double_def split: if_splits)

subsection \<open>Pass A\<close>

lemma double_less_eq_not_NaN: "double_less_eq x y \<Longrightarrow> x \<noteq> NaN \<and> y \<noteq> NaN"
  by (cases x; cases y) simp_all

lemma double_less_eq_refl: "x \<noteq> NaN \<Longrightarrow> double_less_eq x x"
  by (cases x) simp_all

lemma double_less_eq_trans: "double_less_eq x y \<Longrightarrow> double_less_eq y z \<Longrightarrow> double_less_eq x z"
  by (cases x; cases y; cases z) simp_all

lemma double_less_imp_less_eq: "double_less x y \<Longrightarrow> double_less_eq x y"
  by (cases x; cases y) simp_all

lemma double_not_less_imp_less_eq:
  "\<not> double_less x y \<Longrightarrow> x \<noteq> NaN \<Longrightarrow> y \<noteq> NaN \<Longrightarrow> double_less_eq y x"
  by (cases x; cases y) simp_all

lemma double_less_not_NaN: "double_less x y \<Longrightarrow> x \<noteq> NaN \<and> y \<noteq> NaN"
  by (cases x; cases y) simp_all

lemma observe_postings_fields [simp]:
  "ranker (observe_postings this df ps) = ranker this"
  "documents_in_collection (observe_postings this df ps) = documents_in_collection this"
  by (induction this df ps rule: observe_postings.induct) (simp_all add: Let_def)

lemma observe_postings_bounds:
  assumes "smallest_rsv this \<noteq> NaN" "largest_rsv this \<noteq> NaN"
  shows "smallest_rsv (observe_postings this df ps) \<noteq> NaN
       \<and> largest_rsv (observe_postings this df ps) \<noteq> NaN
       \<and> double_less_eq (smallest_rsv (observe_postings this df ps)) (smallest_rsv this)
       \<and> double_less_eq (largest_rsv this) (largest_rsv (observe_postings this df ps))"
  using assms
proof (induction this df ps rule: observe_postings.induct)
  case (1 this df)
  then show ?case by (simp add: double_less_eq_refl)
next
  case (2 this df current_id current_tf rest)
  define score where "score = ranker this df (documents_in_collection this) (current_id - 1) current_tf"
  define this1 where "this1 = (if double_less score (smallest_rsv this) then this\<lparr>smallest_rsv := score\<rparr> else this)"
  define this2 where "this2 = (if double_greater score (largest_rsv this1) then this1\<lparr>largest_rsv := score\<rparr> else this1)"
  have step: "observe_postings this df ((current_id, current_tf) # rest) = observe_postings this2 df rest"
    by (simp add: Let_def score_def this1_def this2_def)
  have n2: "smallest_rsv this2 \<noteq> NaN" "largest_rsv this2 \<noteq> NaN"
    using "2.prems" double_less_not_NaN [of score "smallest_rsv this"]
      double_less_not_NaN [of "largest_rsv this" score]
    by (auto simp: this2_def this1_def double_greater_def)
  have m2: "double_less_eq (smallest_rsv this2) (smallest_rsv this)"
    "double_less_eq (largest_rsv this) (largest_rsv this2)"
    using "2.prems" by (auto simp: this2_def this1_def double_greater_def
        double_less_eq_refl double_less_imp_less_eq)
  from "2.IH" [OF score_def this1_def this2_def n2]
  show ?case
    unfolding step using m2 by (auto intro: double_less_eq_trans)
qed

lemma observe_postings_covers:
  assumes "(d, tf) \<in> set ps" "smallest_rsv this \<noteq> NaN" "largest_rsv this \<noteq> NaN"
    and "ranker this df (documents_in_collection this) (d - 1) tf \<noteq> NaN"
  shows "double_less_eq (smallest_rsv (observe_postings this df ps))
           (ranker this df (documents_in_collection this) (d - 1) tf)
       \<and> double_less_eq (ranker this df (documents_in_collection this) (d - 1) tf)
           (largest_rsv (observe_postings this df ps))"
  using assms
proof (induction this df ps rule: observe_postings.induct)
  case (1 this df)
  then show ?case by simp
next
  case (2 this df current_id current_tf rest)
  define score where "score = ranker this df (documents_in_collection this) (current_id - 1) current_tf"
  define this1 where "this1 = (if double_less score (smallest_rsv this) then this\<lparr>smallest_rsv := score\<rparr> else this)"
  define this2 where "this2 = (if double_greater score (largest_rsv this1) then this1\<lparr>largest_rsv := score\<rparr> else this1)"
  have step: "observe_postings this df ((current_id, current_tf) # rest) = observe_postings this2 df rest"
    by (simp add: Let_def score_def this1_def this2_def)
  have f: "ranker this2 = ranker this" "documents_in_collection this2 = documents_in_collection this"
    by (simp_all add: this2_def this1_def)
  have n2: "smallest_rsv this2 \<noteq> NaN" "largest_rsv this2 \<noteq> NaN"
    using "2.prems"(2,3) double_less_not_NaN [of score "smallest_rsv this"]
      double_less_not_NaN [of "largest_rsv this" score]
    by (auto simp: this2_def this1_def double_greater_def)
  show ?case
  proof (cases "(d, tf) \<in> set rest")
    case True
    then show ?thesis
      unfolding step using "2.IH" [OF score_def this1_def this2_def True n2] "2.prems"(4)
      by (simp add: f)
  next
    case False
    with "2.prems"(1) have eq: "d = current_id" "tf = current_tf" by auto
    with "2.prems"(4) have sn: "score \<noteq> NaN" by (simp add: score_def)
    have "double_less_eq (smallest_rsv this2) score \<and> double_less_eq score (largest_rsv this2)"
      using sn "2.prems"(2,3)
      by (auto simp: this2_def this1_def double_greater_def double_less_eq_refl
          double_not_less_imp_less_eq)
    then show ?thesis
      unfolding step using observe_postings_bounds [OF n2, of df rest]
      by (auto simp: eq score_def intro: double_less_eq_trans)
  qed
qed

lemma operator_observe_fields [simp]:
  "ranker (operator_observe this ps) = ranker this"
  "documents_in_collection (operator_observe this ps) = documents_in_collection this"
  by (simp_all add: operator_observe_def)

lemma iterate_fields [simp]:
  "ranker (foldl operator_observe this index) = ranker this"
  "documents_in_collection (foldl operator_observe this index) = documents_in_collection this"
  by (induction index arbitrary: this) simp_all

lemma iterate_bounds:
  assumes "smallest_rsv this \<noteq> NaN" "largest_rsv this \<noteq> NaN"
  shows "smallest_rsv (foldl operator_observe this index) \<noteq> NaN
       \<and> largest_rsv (foldl operator_observe this index) \<noteq> NaN
       \<and> double_less_eq (smallest_rsv (foldl operator_observe this index)) (smallest_rsv this)
       \<and> double_less_eq (largest_rsv this) (largest_rsv (foldl operator_observe this index))"
  using assms
proof (induction index arbitrary: this)
  case Nil
  then show ?case by (simp add: double_less_eq_refl)
next
  case (Cons ps index)
  from observe_postings_bounds [OF Cons.prems, of "word_of_nat (length ps)" ps]
  have b: "smallest_rsv (operator_observe this ps) \<noteq> NaN"
    "largest_rsv (operator_observe this ps) \<noteq> NaN"
    "double_less_eq (smallest_rsv (operator_observe this ps)) (smallest_rsv this)"
    "double_less_eq (largest_rsv this) (largest_rsv (operator_observe this ps))"
    by (simp_all add: operator_observe_def)
  from Cons.IH [OF b(1,2)] b(3,4) show ?case
    by (auto intro: double_less_eq_trans)
qed

lemma score_of_cong:
  "ranker this' = ranker this \<Longrightarrow> documents_in_collection this' = documents_in_collection this \<Longrightarrow>
   score_of this' ps p = score_of this ps p"
  by (simp add: score_of_def)

lemma iterate_covers:
  assumes "ps \<in> set index" "p \<in> set ps" "smallest_rsv this \<noteq> NaN" "largest_rsv this \<noteq> NaN"
    and "score_of this ps p \<noteq> NaN"
  shows "double_less_eq (smallest_rsv (iterate this index)) (score_of this ps p)
       \<and> double_less_eq (score_of this ps p) (largest_rsv (iterate this index))"
  using assms unfolding iterate_def
proof (induction index arbitrary: this)
  case Nil
  then show ?case by simp
next
  case (Cons qs index)
  have sc: "score_of (operator_observe this qs) ps p = score_of this ps p"
    by (rule score_of_cong) simp_all
  from observe_postings_bounds [OF Cons.prems(3,4), of "word_of_nat (length qs)" qs]
  have b: "smallest_rsv (operator_observe this qs) \<noteq> NaN"
    "largest_rsv (operator_observe this qs) \<noteq> NaN"
    by (simp_all add: operator_observe_def)
  show ?case
  proof (cases "ps \<in> set index")
    case True
    then show ?thesis
      using Cons.IH [OF True Cons.prems(2) b] Cons.prems(5) by (simp add: sc)
  next
    case False
    with Cons.prems(1) have qs: "qs = ps" by simp
    obtain d tf where p: "p = (d, tf)" by (cases p)
    from observe_postings_covers [of d tf ps this "word_of_nat (length ps)"] Cons.prems(2-5)
    have "double_less_eq (smallest_rsv (operator_observe this ps)) (score_of this ps p)
        \<and> double_less_eq (score_of this ps p) (largest_rsv (operator_observe this ps))"
      by (simp add: p score_of_def operator_observe_def)
    then show ?thesis
      using iterate_bounds [OF b, of index]
      by (auto simp: qs intro: double_less_eq_trans)
  qed
qed

lemma quantize_not_NaN:
  "smallest_rsv (quantize documents r) \<noteq> NaN" "largest_rsv (quantize documents r) \<noteq> NaN"
  by (simp_all add: quantize_def)

subsection \<open>Pass B\<close>

lemma double_mul_Finite:
  assumes "double_mul x (Finite c) = Finite r"
  obtains q where "x = Finite q" "r = round_to_nearest (q * c)"
  using assms by (cases x) (auto split: if_splits dest: to_double_Finite)

lemma double_div_Finite:
  assumes "double_div n d = Finite q"
  obtains nv dv where "n = Finite nv" "d = Finite dv" "dv \<noteq> 0" "q = round_to_nearest (nv / dv)"
  | nv where "n = Finite nv" "d = PlusInfinity \<or> d = MinusInfinity" "q = 0"
  using assms by (cases n; cases d) (auto split: if_splits dest: to_double_Finite)

lemma double_sub_Finite:
  assumes "double_sub x y = Finite r"
  obtains a b where "x = Finite a" "y = Finite b" "r = round_to_nearest (a - b)"
  using assms by (cases x; cases y) (auto dest: to_double_Finite)

lemma round_to_nearest_one: "round_to_nearest 1 = 1"
  using round_to_nearest_nat [of 1] by simp

lemma round_to_nearest_254: "round_to_nearest 254 = 254"
  using round_to_nearest_nat [of 254] by simp

lemma scaled_in_range:
  assumes lo: "double_less_eq lo s" and hi: "double_less_eq s hi"
    and x: "double_mul (double_div (double_sub s lo) (double_sub hi lo)) (Finite 254) = Finite r"
  shows "0 \<le> r \<and> r \<le> 254"
proof -
  from x obtain q where q: "double_div (double_sub s lo) (double_sub hi lo) = Finite q"
    and r: "r = round_to_nearest (q * 254)"
    by (rule double_mul_Finite)
  have "0 \<le> q \<and> q \<le> 1"
    using q
  proof (cases rule: double_div_Finite)
    case (1 nv dv)
    from 1(1) obtain sv lv where s: "s = Finite sv" "lo = Finite lv" and nv: "nv = round_to_nearest (sv - lv)"
      by (rule double_sub_Finite)
    from 1(2) obtain hv lv' where h: "hi = Finite hv" "lo = Finite lv'" and dv: "dv = round_to_nearest (hv - lv')"
      by (rule double_sub_Finite)
    from s h have lv': "lv' = lv" by simp
    from lo hi have le: "lv \<le> sv" "sv \<le> hv" by (simp_all add: s h)
    have "0 \<le> nv"
      unfolding nv by (rule round_to_nearest_nonneg) (use le in simp)
    moreover have "nv \<le> dv"
      unfolding nv dv lv' by (rule round_to_nearest_mono) (use le in simp)
    ultimately have "0 \<le> nv / dv" "nv / dv \<le> 1"
      using 1(3) by (simp_all add: divide_le_eq_1)
    then have "round_to_nearest 0 \<le> round_to_nearest (nv / dv)"
      "round_to_nearest (nv / dv) \<le> round_to_nearest 1"
      by (simp_all add: round_to_nearest_mono)
    then show ?thesis
      by (simp add: 1(4) round_to_nearest_zero round_to_nearest_one)
  next
    case (2 nv)
    then show ?thesis by simp
  qed
  then have "0 \<le> q * 254" "q * 254 \<le> 254" by simp_all
  then have "round_to_nearest 0 \<le> round_to_nearest (q * 254)"
    "round_to_nearest (q * 254) \<le> round_to_nearest 254"
    by (simp_all add: round_to_nearest_mono)
  then show ?thesis
    by (simp add: r round_to_nearest_zero round_to_nearest_254)
qed

lemma static_cast_small:
  assumes "0 \<le> r" "r \<le> 254"
  shows "unat (static_cast_impact_type (Finite r) + 1) = nat \<lfloor>r\<rfloor> + 1 \<and> nat \<lfloor>r\<rfloor> \<le> 254"
proof -
  define k where "k = nat \<lfloor>r\<rfloor>"
  have t: "truncate_toward_zero r = int k" and k: "k \<le> 254"
    using assms by (simp_all add: truncate_toward_zero_def k_def le_nat_floor nat_le_iff floor_le_iff)
  have "static_cast_impact_type (Finite r) = word_of_nat k"
    using k by (simp add: t)
  moreover have "unat (word_of_nat k + 1 :: 8 word) = k + 1"
    using k by (simp add: unat_word_ariths unat_of_nat)
  ultimately show ?thesis using k by (simp add: k_def)
qed

lemma impact_range_254: "impact_range = Finite 254"
  by (simp add: impact_range_def largest_impact_def smallest_impact_def)

lemma score_quotient_NaN: "score_quotient this NaN = NaN"
  by (simp add: score_quotient_def)

lemma quantize_score_in_range:
  assumes "score = NaN \<or> (double_less_eq (smallest_rsv this) score \<and> double_less_eq score (largest_rsv this))"
  shows "smallest_impact \<le> unat (quantize_score this score) \<and> unat (quantize_score this score) \<le> largest_impact"
proof (cases "double_mul (score_quotient this score) impact_range")
  case (Finite r)
  with assms have le: "double_less_eq (smallest_rsv this) score" "double_less_eq score (largest_rsv this)"
    by (auto simp: score_quotient_NaN)
  from Finite have "0 \<le> r \<and> r \<le> 254"
    unfolding score_quotient_def impact_range_254 by (rule scaled_in_range [OF le])
  then show ?thesis
    using static_cast_small [of r]
    by (simp add: quantize_score_def Finite smallest_impact_def largest_impact_def)
qed (simp_all add: quantize_score_def smallest_impact_def largest_impact_def)

lemma quantize_postings_in_range:
  assumes "\<forall>(d, tf) \<in> set ps.
             ranker this df (documents_in_collection this) (d - 1) tf = NaN
           \<or> (double_less_eq (smallest_rsv this) (ranker this df (documents_in_collection this) (d - 1) tf)
              \<and> double_less_eq (ranker this df (documents_in_collection this) (d - 1) tf) (largest_rsv this))"
  shows "map fst (quantize_postings this df ps) = map fst ps
       \<and> (\<forall>(d, i) \<in> set (quantize_postings this df ps). smallest_impact \<le> unat i \<and> unat i \<le> largest_impact)"
  using assms
proof (induction ps)
  case Nil
  then show ?case by simp
next
  case (Cons p ps)
  obtain d tf where p: "p = (d, tf)" by (cases p)
  from Cons.prems p
  have "smallest_impact \<le> unat (quantize_score this (ranker this df (documents_in_collection this) (d - 1) tf))
      \<and> unat (quantize_score this (ranker this df (documents_in_collection this) (d - 1) tf)) \<le> largest_impact"
    by (intro quantize_score_in_range) simp
  moreover from Cons have "map fst (quantize_postings this df ps) = map fst ps
       \<and> (\<forall>(d, i) \<in> set (quantize_postings this df ps). smallest_impact \<le> unat i \<and> unat i \<le> largest_impact)"
    by simp
  ultimately show ?case
    by (simp add: p Let_def)
qed

lemma quantize_score_zero_range:
  assumes "double_sub (largest_rsv this) (smallest_rsv this) = Finite 0"
  shows "score_quotient this score \<in> {NaN, PlusInfinity, MinusInfinity}"
    and "quantize_score this score = word_of_nat smallest_impact"
proof -
  show q: "score_quotient this score \<in> {NaN, PlusInfinity, MinusInfinity}"
    unfolding score_quotient_def assms
    by (cases "double_sub score (smallest_rsv this)") simp_all
  then show "quantize_score this score = word_of_nat smallest_impact"
    by (auto simp: quantize_score_def impact_range_254)
qed

lemma quantize_postings_zero_range:
  assumes "double_sub (largest_rsv this) (smallest_rsv this) = Finite 0"
  shows "quantize_postings this df ps = map (\<lambda>(d, tf). (d, word_of_nat smallest_impact)) ps"
  by (induction ps) (auto simp: Let_def quantize_score_zero_range(2) [OF assms])

lemma to_double_zero: "to_double 0 = Finite 0"
  using to_double_nat [of 0] by simp

lemma smallest_rsv_quotient:
  assumes "double_sub (largest_rsv this) (smallest_rsv this) = Finite 0"
  shows "score_quotient this (smallest_rsv this) = NaN"
proof -
  from assms obtain a b where b: "smallest_rsv this = Finite b"
    by (rule double_sub_Finite)
  have "double_sub (smallest_rsv this) (smallest_rsv this) = Finite 0"
    by (simp add: b to_double_zero)
  then show ?thesis
    by (simp add: score_quotient_def assms)
qed

lemma DBL_MIN_less: "1 \<le> x \<Longrightarrow> DBL_MIN < x"
proof -
  assume "1 \<le> x"
  moreover have "DBL_MIN < 1"
    by (simp add: DBL_MIN_def)
  ultimately show ?thesis by linarith
qed

lemma small_le_power: "(x :: real) \<le> 1024 \<Longrightarrow> x \<le> 2 ^ 1023"
proof -
  assume "x \<le> 1024"
  moreover have "(2 :: real) ^ 10 \<le> 2 ^ 1023"
    by (rule power_increasing) simp_all
  ultimately show ?thesis by simp
qed

lemma DBL_MIN_less_DBL_MAX: "DBL_MIN < DBL_MAX"
  using DBL_MIN_less [of 1] DBL_MAX_ge [of 1] small_le_power [of 1] by simp

text \<open>
  C4 (amended). After pass A over an index in which at least one observed score is not a
  NaN, the bounds returned by \<open>get_bounds\<close> satisfy \<open>smallest_rsv <= largest_rsv\<close>; and
  pass B, run with these bounds over any postings list of the index (whatever its scores,
  NaN and infinities included), keeps the document ids and emits only impacts in
  \<open>[smallest_impact, largest_impact]\<close>.
\<close>

theorem quantizer_bounds:
  fixes documents :: "64 word" and r :: ranker and index :: "(32 word \<times> impact_type) list list"
  defines "q \<equiv> iterate (quantize documents r) index"
  shows "((\<exists>ps \<in> set index. \<exists>p \<in> set ps. score_of q ps p \<noteq> NaN) \<longrightarrow>
            double_less_eq (fst (get_bounds q)) (snd (get_bounds q)))
       \<and> (\<forall>ps \<in> set index.
            map fst (operator_quantize q ps) = map fst ps
          \<and> (\<forall>(d, i) \<in> set (operator_quantize q ps). smallest_impact \<le> unat i \<and> unat i \<le> largest_impact))"
proof -
  have f: "ranker q = ranker (quantize documents r)"
    "documents_in_collection q = documents_in_collection (quantize documents r)"
    by (simp_all add: q_def iterate_def)
  have sc: "score_of q ps p = score_of (quantize documents r) ps p" for ps p
    by (rule score_of_cong) (simp_all add: f)
  have ordered: "double_less_eq (fst (get_bounds q)) (snd (get_bounds q))"
    if "\<exists>ps \<in> set index. \<exists>p \<in> set ps. score_of q ps p \<noteq> NaN"
  proof -
    from that obtain ps p where ps: "ps \<in> set index" "p \<in> set ps" "score_of q ps p \<noteq> NaN" by blast
    from ps(3) have "score_of (quantize documents r) ps p \<noteq> NaN"
      by (simp add: sc)
    from iterate_covers [OF ps(1,2) quantize_not_NaN [of documents r] this]
    have "double_less_eq (smallest_rsv q) (score_of q ps p)"
      "double_less_eq (score_of q ps p) (largest_rsv q)"
      by (simp_all add: sc q_def [symmetric])
    then show ?thesis
      by (auto simp: get_bounds_def intro: double_less_eq_trans)
  qed
  have emitted: "map fst (operator_quantize q ps) = map fst ps
       \<and> (\<forall>(d, i) \<in> set (operator_quantize q ps). smallest_impact \<le> unat i \<and> unat i \<le> largest_impact)"
    if ps: "ps \<in> set index" for ps
  proof -
    have cov: "ranker q (word_of_nat (length ps)) (documents_in_collection q) (d - 1) tf = NaN
           \<or> (double_less_eq (smallest_rsv q) (ranker q (word_of_nat (length ps)) (documents_in_collection q) (d - 1) tf)
              \<and> double_less_eq (ranker q (word_of_nat (length ps)) (documents_in_collection q) (d - 1) tf) (largest_rsv q))"
      if p: "(d, tf) \<in> set ps" for d tf
    proof (cases "ranker q (word_of_nat (length ps)) (documents_in_collection q) (d - 1) tf = NaN")
      case True
      then show ?thesis by simp
    next
      case False
      then have "score_of (quantize documents r) ps (d, tf) \<noteq> NaN"
        by (simp add: score_of_def f)
      from iterate_covers [OF ps p quantize_not_NaN [of documents r] this]
      show ?thesis
        by (simp add: q_def [symmetric] score_of_def f)
    qed
    have "\<forall>(d, tf) \<in> set ps.
             ranker q (word_of_nat (length ps)) (documents_in_collection q) (d - 1) tf = NaN
           \<or> (double_less_eq (smallest_rsv q) (ranker q (word_of_nat (length ps)) (documents_in_collection q) (d - 1) tf)
              \<and> double_less_eq (ranker q (word_of_nat (length ps)) (documents_in_collection q) (d - 1) tf) (largest_rsv q))"
      using cov by blast
    then have "map fst (quantize_postings q (word_of_nat (length ps)) ps) = map fst ps
       \<and> (\<forall>(d, i) \<in> set (quantize_postings q (word_of_nat (length ps)) ps). smallest_impact \<le> unat i \<and> unat i \<le> largest_impact)"
      by (rule quantize_postings_in_range)
    then show ?thesis
      by (simp add: operator_quantize_def)
  qed
  show ?thesis
    using ordered emitted by blast
qed

lemma to_double_one: "to_double 1 = Finite 1"
  using to_double_nat [of 1] by simp

lemma to_double_two: "to_double 2 = Finite 2"
  using to_double_nat [of 2] by simp

lemma to_double_254: "to_double 254 = Finite 254"
  using to_double_nat [of 254] by simp

lemma tf_ranker_run:
  "iterate (quantize 2 tf_ranker) [[(1, 1), (2, 3)]]
     = \<lparr>largest_rsv = Finite 3, smallest_rsv = Finite 1, ranker = tf_ranker, documents_in_collection = 2\<rparr>"
  by (simp add: iterate_def operator_observe_def quantize_def Let_def tf_ranker_def
      double_greater_def DBL_MIN_less DBL_MAX_ge small_le_power)

theorem quantizer_bounds_witness:
  "score_of (iterate (quantize 2 tf_ranker) [[(1, 1), (2, 3)]]) [(1, 1), (2, 3)] (1, 1) = Finite 1
   \<and> get_bounds (iterate (quantize 2 tf_ranker) [[(1, 1), (2, 3)]]) = (Finite 1, Finite 3)
   \<and> double_less_eq (Finite 1) (Finite 3)
   \<and> operator_quantize (iterate (quantize 2 tf_ranker) [[(1, 1), (2, 3)]]) [(1, 1), (2, 3)]
       = [(1, 1), (2, 255)]"
  using quantizer_bounds [where documents = 2 and r = tf_ranker and index = "[[(1, 1), (2, 3)]]"]
  by (simp add: tf_ranker_run get_bounds_def score_of_def operator_quantize_def quantize_score_def
      score_quotient_def impact_range_254 truncate_toward_zero_def smallest_impact_def
      tf_ranker_def to_double_zero to_double_one to_double_two to_double_254 Let_def)

text \<open>
  A corpus of one posting whose score is a NaN: both tests of pass A are false, the bounds
  stay at their initial values \<open>(DBL_MAX, DBL_MIN)\<close>, and \<open>smallest_rsv <= largest_rsv\<close> fails.
\<close>

theorem quantizer_nan_score_counterexample:
  "score_of (iterate (quantize 1 (\<lambda>document_frequency documents d tf. NaN)) [[(1, 1)]]) [(1, 1)] (1, 1) = NaN
   \<and> get_bounds (iterate (quantize 1 (\<lambda>document_frequency documents d tf. NaN)) [[(1, 1)]])
       = (Finite DBL_MAX, Finite DBL_MIN)
   \<and> \<not> double_less_eq (fst (get_bounds (iterate (quantize 1 (\<lambda>document_frequency documents d tf. NaN)) [[(1, 1)]])))
                        (snd (get_bounds (iterate (quantize 1 (\<lambda>document_frequency documents d tf. NaN)) [[(1, 1)]])))"
  using DBL_MIN_less_DBL_MAX
  by (simp add: iterate_def operator_observe_def quantize_def Let_def get_bounds_def score_of_def
      double_greater_def)

text \<open>
  C3 (amended). When \<open>largest_rsv - smallest_rsv\<close> is zero, pass B emits \<open>smallest_impact\<close>
  for every posting, but it computes it by dividing by zero: the quotient of l.166 has the
  divisor \<open>0.0\<close>, so it is a NaN or an infinity for every score, and \<open>0.0 / 0.0\<close>, a NaN,
  for a score equal to \<open>smallest_rsv\<close>. The conversion of that value to the impact type
  gives 0, to which \<open>smallest_impact\<close> is added.
\<close>

theorem quantize_zero_range:
  assumes "double_sub (largest_rsv this) (smallest_rsv this) = Finite 0"
  shows "operator_quantize this postings = map (\<lambda>(d, tf). (d, word_of_nat smallest_impact)) postings
       \<and> (\<forall>score. score_quotient this score \<in> {NaN, PlusInfinity, MinusInfinity})
       \<and> score_quotient this (smallest_rsv this) = NaN"
  using quantize_postings_zero_range [OF assms] quantize_score_zero_range(1) [OF assms]
    smallest_rsv_quotient [OF assms]
  by (simp add: operator_quantize_def)

theorem quantize_zero_range_witness:
  "double_sub (Finite 2) (Finite 2) = Finite 0
   \<and> operator_quantize \<lparr>largest_rsv = Finite 2, smallest_rsv = Finite 2, ranker = tf_ranker, documents_in_collection = 2\<rparr>
        [(1, 2), (2, 2)] = [(1, 1), (2, 1)]
   \<and> score_quotient \<lparr>largest_rsv = Finite 2, smallest_rsv = Finite 2, ranker = tf_ranker, documents_in_collection = 2\<rparr>
        (Finite 2) = NaN"
  using quantize_zero_range [of "\<lparr>largest_rsv = Finite 2, smallest_rsv = Finite 2, ranker = tf_ranker, documents_in_collection = 2\<rparr>" "[(1, 2), (2, 2)]"]
  by (simp add: to_double_zero smallest_impact_def)

lemma constant_ranker_run:
  "iterate (quantize 2 (\<lambda>document_frequency documents d tf. Finite 2)) [[(1, 1), (2, 1)]]
     = \<lparr>largest_rsv = Finite 2, smallest_rsv = Finite 2,
        ranker = (\<lambda>document_frequency documents d tf. Finite 2), documents_in_collection = 2\<rparr>"
  by (simp add: iterate_def operator_observe_def quantize_def Let_def
      double_greater_def DBL_MIN_less DBL_MAX_ge small_le_power)

text \<open>
  Two postings of score 2: pass A leaves a range of zero, and pass B divides \<open>2 - 2\<close> by
  \<open>2 - 2\<close> for each of them. The quotient is a NaN, and the list passed to the writer has
  \<open>smallest_impact\<close> for both.
\<close>

theorem quantize_zero_range_counterexample:
  "double_sub (largest_rsv (iterate (quantize 2 (\<lambda>document_frequency documents d tf. Finite 2)) [[(1, 1), (2, 1)]]))
              (smallest_rsv (iterate (quantize 2 (\<lambda>document_frequency documents d tf. Finite 2)) [[(1, 1), (2, 1)]]))
     = Finite 0
   \<and> double_sub (Finite 2)
              (smallest_rsv (iterate (quantize 2 (\<lambda>document_frequency documents d tf. Finite 2)) [[(1, 1), (2, 1)]]))
     = Finite 0
   \<and> score_quotient (iterate (quantize 2 (\<lambda>document_frequency documents d tf. Finite 2)) [[(1, 1), (2, 1)]]) (Finite 2)
     = NaN
   \<and> operator_quantize (iterate (quantize 2 (\<lambda>document_frequency documents d tf. Finite 2)) [[(1, 1), (2, 1)]])
        [(1, 1), (2, 1)] = [(1, word_of_nat smallest_impact), (2, word_of_nat smallest_impact)]"
  by (simp add: constant_ranker_run to_double_zero score_quotient_def operator_quantize_def
      quantize_score_def impact_range_254 Let_def)

section \<open>Properties of the codec\<close>

lemma permutation_number_foldr:
  "permutation_number e k v = foldr selector_step (take k e) v" if "k \<le> length e"
  using that
proof (induction k arbitrary: v)
  case 0
  then show ?case by simp
next
  case (Suc k)
  then have "take (Suc k) e = take k e @ [e ! k]"
    by (simp add: take_Suc_conv_app_nth)
  with Suc show ?case
    by (simp add: Let_def selector_step_def)
qed

lemma scan_encodings_sentinel:
  "scan_encodings (ws @ 0 # rest) c = length ws"
  if "c \<le> length ws" "length ws \<le> 32" "0 \<notin> set ws"
  using that
proof (induction "length ws - c" arbitrary: c)
  case 0
  then have c: "c = length ws" by simp
  show ?case
    by (subst scan_encodings.simps) (simp add: c)
next
  case (Suc d)
  then have lt: "c < length ws" by simp
  then have "ws ! c \<noteq> 0"
    using Suc.prems(3) by (metis nth_mem)
  moreover have "scan_encodings (ws @ 0 # rest) (c + 1) = length ws"
    by (rule Suc.hyps(1)) (use Suc lt in simp_all)
  ultimately show ?case
    using lt Suc.prems(2) by (subst scan_encodings.simps) (simp add: nth_append)
qed

lemma compute_selector_widths:
  "compute_selector (ws @ 0 # rest) = foldr selector_step ws 0"
  if "length ws \<le> 32" "0 \<notin> set ws"
  using that by (simp add: compute_selector_def scan_encodings_sentinel permutation_number_foldr)

lemma fits_iff: "take_bit w v = v \<longleftrightarrow> (\<forall>n. bit v n \<longrightarrow> n < w)" for v :: "'a::len word"
proof
  assume a: "take_bit w v = v"
  show "\<forall>n. bit v n \<longrightarrow> n < w"
  proof (intro allI impI)
    fix n
    assume "bit v n"
    then have "bit (take_bit w v) n" by (simp only: a)
    then show "n < w" by (simp add: bit_take_bit_iff)
  qed
next
  assume "\<forall>n. bit v n \<longrightarrow> n < w"
  then show "take_bit w v = v"
    by (intro bit_eqI) (auto simp: bit_take_bit_iff)
qed

lemma selector_step_ffs:
  fixes v :: "32 word"
  assumes "1 \<le> w" "w \<le> 32"
  shows "find_first_set_bit (ucast (selector_step w v)) = w"
proof -
  let ?s = "ucast (selector_step w v) :: 64 word"
  have b: "bit ?s n \<longleftrightarrow> n < 32 \<and> (n = w - 1 \<or> (w \<le> n \<and> bit v (n - w)))" for n
    using assms by (auto simp: selector_step_def bit_simps)
  have "find (bit ?s) [0 ..< 64] = Some (w - 1)"
    unfolding find_Some_iff
    by (rule exI [of _ "w - 1"]) (use assms in \<open>auto simp: b simp del: upt_rec_numeral\<close>)
  then show ?thesis
    using assms by (simp add: find_first_set_bit_def del: upt_rec_numeral)
qed

lemma selector_step_drop:
  fixes v :: "32 word"
  assumes "1 \<le> w" "w \<le> 32" "take_bit (32 - w) v = v"
  shows "drop_bit w (ucast (selector_step w v) :: 64 word) = ucast v"
proof (rule bit_word_eqI)
  fix n
  assume "n < LENGTH(64)"
  have v: "bit v m \<Longrightarrow> m < 32 - w" for m
    using assms(3) by (simp add: fits_iff)
  show "bit (drop_bit w (ucast (selector_step w v) :: 64 word)) n = bit (ucast v :: 64 word) n"
    using assms(1,2) v [of n] by (auto simp: selector_step_def bit_simps)
qed

lemma selector_step_nonzero:
  fixes v :: "32 word"
  assumes "1 \<le> w" "w \<le> 32"
  shows "(ucast (selector_step w v) :: 64 word) \<noteq> 0"
proof -
  have "bit (ucast (selector_step w v) :: 64 word) (w - 1)"
    using assms by (auto simp: selector_step_def bit_simps)
  then show ?thesis by auto
qed

lemma selector_fits:
  "take_bit (sum_list ws) (foldr selector_step ws 0) = foldr selector_step ws 0"
  if "\<forall>w \<in> set ws. 1 \<le> w"
  using that
proof (induction ws)
  case Nil
  then show ?case by simp
next
  case (Cons w ws)
  then have "take_bit (sum_list ws) (foldr selector_step ws 0) = foldr selector_step ws 0"
    by simp
  then have v: "bit (foldr selector_step ws 0) m \<Longrightarrow> m < sum_list ws" for m
    by (simp add: fits_iff)
  have w: "1 \<le> w" using Cons.prems by simp
  show ?case
    unfolding fits_iff
  proof (intro allI impI)
    fix n
    assume "bit (foldr selector_step (w # ws) 0) n"
    then have "n = w - 1 \<or> (w \<le> n \<and> bit (foldr selector_step ws 0) (n - w))"
      by (auto simp: selector_step_def bit_simps)
    then show "n < sum_list (w # ws)"
      using v [of "n - w"] w by auto
  qed
qed

lemma selector_widths_compute:
  "selector_widths (ucast (foldr selector_step ws 0)) = ws"
  if "\<forall>w \<in> set ws. 1 \<le> w" "sum_list ws \<le> 32"
  using that
proof (induction ws)
  case Nil
  then show ?case by (subst selector_widths.simps) simp
next
  case (Cons w ws)
  let ?v = "foldr selector_step ws 0"
  have w: "1 \<le> w" "w \<le> 32" using Cons.prems by simp_all
  have "take_bit (sum_list ws) ?v = ?v"
    using Cons.prems by (intro selector_fits) simp
  then have "take_bit (32 - w) ?v = ?v"
    unfolding fits_iff using Cons.prems(2) by fastforce
  then have d: "drop_bit w (ucast (selector_step w ?v) :: 64 word) = ucast ?v"
    using w by (intro selector_step_drop)
  have IH: "selector_widths (ucast ?v) = ws"
    using Cons by simp
  show ?case
    by (subst selector_widths.simps)
      (simp add: selector_step_nonzero [OF w] selector_step_ffs [OF w] d IH Let_def)
qed

lemma find_first_set_bit_lowest:
  fixes s :: "64 word"
  assumes "s \<noteq> 0"
  shows "\<exists>i. find_first_set_bit s = Suc i \<and> bit s i \<and> (\<forall>j < i. \<not> bit s j)"
proof -
  from assms obtain n where n: "bit s n"
    by (auto simp: bit_eq_iff)
  then have "n < 64"
    using bit_imp_le_length [of s n] by simp
  with n have "find (bit s) [0 ..< 64] \<noteq> None"
    by (simp only: find_None_iff) (metis atLeastLessThan_iff set_upt zero_le)
  then obtain i where i: "find (bit s) [0 ..< 64] = Some i" by auto
  then obtain k where k: "k < length [0 ..< 64]" "bit s ([0 ..< 64] ! k)" "i = [0 ..< 64] ! k"
    "\<forall>j < k. \<not> bit s ([0 ..< 64] ! j)"
    unfolding find_Some_iff by blast
  from k(1) have k64: "k < 64" by (simp del: upt_rec_numeral)
  then have ik: "i = k"
    using k(3) by (simp del: upt_rec_numeral)
  have low: "\<not> bit s j" if "j < i" for j
  proof -
    from that ik k64 have "j < k" "j < 64" by simp_all
    with k(4) have "\<not> bit s ([0 ..< 64] ! j)" by blast
    with \<open>j < 64\<close> show ?thesis by (simp del: upt_rec_numeral)
  qed
  have "bit s i"
    using k(2) k64 ik by (simp del: upt_rec_numeral)
  moreover have "find_first_set_bit s = Suc i"
    by (simp add: find_first_set_bit_def i del: upt_rec_numeral)
  ultimately show ?thesis
    using low by blast
qed

lemma bit_ucast_selector_step:
  "1 \<le> w \<Longrightarrow>
   bit (ucast (selector_step w v) :: 64 word) n
     \<longleftrightarrow> n < 32 \<and> (n = w - 1 \<or> (w \<le> n \<and> bit v (n - w)))"
  by (auto simp: selector_step_def bit_simps)

lemma selector_widths_rebuild:
  fixes s :: "64 word"
  assumes "take_bit k s = s" "k \<le> 32"
  shows "(\<forall>w \<in> set (selector_widths s). 1 \<le> w) \<and> sum_list (selector_widths s) \<le> k
       \<and> ucast (foldr selector_step (selector_widths s) 0) = s"
  using assms
proof (induction s arbitrary: k rule: selector_widths.induct)
  case (1 s)
  show ?case
  proof (cases "s = 0")
    case True
    then show ?thesis by (subst (1 2 3) selector_widths.simps) simp
  next
    case False
    then obtain i where i: "find_first_set_bit s = Suc i" "bit s i" "\<And>j. j < i \<Longrightarrow> \<not> bit s j"
      using find_first_set_bit_lowest [of s] by blast
    define s1 where "s1 = drop_bit (Suc i) s"
    define ws where "ws = selector_widths s1"
    define V :: "32 word" where "V = foldr selector_step ws 0"
    have sk: "bit s n \<Longrightarrow> n < k" for n
      using "1.prems"(1) by (simp add: fits_iff)
    from sk [OF i(2)] have ik: "Suc i \<le> k" by simp
    have "take_bit (k - Suc i) s1 = s1"
      unfolding fits_iff s1_def
    proof (intro allI impI)
      fix n
      assume "bit (drop_bit (Suc i) s) n"
      then have "bit s (Suc i + n)" by (simp add: bit_simps)
      from sk [OF this] show "n < k - Suc i" by simp
    qed
    moreover have "k - Suc i \<le> 32" using "1.prems"(2) by simp
    ultimately have IH: "(\<forall>w \<in> set ws. 1 \<le> w)" "sum_list ws \<le> k - Suc i" "ucast V = s1"
      using "1.IH" [OF False refl, of "k - Suc i"] by (simp_all add: i(1) s1_def ws_def V_def)
    have unfold: "selector_widths s = Suc i # ws"
      by (subst selector_widths.simps) (simp add: False i(1) Let_def ws_def s1_def)
    have bV: "bit V m \<longleftrightarrow> m < 32 \<and> bit s (m + Suc i)" for m
    proof -
      have "bit (ucast V :: 64 word) m \<longleftrightarrow> bit s1 m" by (simp only: IH(3))
      then show ?thesis
        by (auto simp: bit_simps s1_def add.commute dest: bit_imp_le_length)
    qed
    have "ucast (selector_step (Suc i) V) = s"
    proof (rule bit_word_eqI)
      fix n
      assume "n < LENGTH(64)"
      have b: "bit (ucast (selector_step (Suc i) V) :: 64 word) n
                 \<longleftrightarrow> n < 32 \<and> (n = i \<or> (Suc i \<le> n \<and> bit V (n - Suc i)))"
        using bit_ucast_selector_step [of "Suc i" V n] by simp
      show "bit (ucast (selector_step (Suc i) V) :: 64 word) n = bit s n"
      proof (cases "n < i")
        case True
        then show ?thesis
          unfolding b using i(3) [of n] by simp
      next
        case False
        show ?thesis
        proof (cases "n = i")
          case True
          then show ?thesis
            unfolding b using i(2) ik "1.prems"(2) by simp
        next
          case False
          with \<open>\<not> n < i\<close> have "Suc i \<le> n" by simp
          then show ?thesis
            unfolding b bV using sk [of n] "1.prems"(2) by auto
        qed
      qed
    qed
    then show ?thesis
      using IH ik by (simp add: unfold V_def)
  qed
qed

lemma length_le_sum_list:
  "\<forall>w \<in> set ws. (1 :: nat) \<le> w \<Longrightarrow> length ws \<le> sum_list ws"
  by (induction ws) auto

lemma ucast_32_64_inj:
  "(ucast (a :: 32 word) :: 64 word) = ucast b \<Longrightarrow> a = b"
proof (rule bit_word_eqI)
  fix n
  assume e: "(ucast a :: 64 word) = ucast b" and n: "n < LENGTH(32)"
  from e have "bit (ucast a :: 64 word) n = bit (ucast b :: 64 word) n" by simp
  with n show "bit a n = bit b n" by (simp add: bit_simps)
qed

lemma compute_selector_of_widths:
  "compute_selector (selector_widths (ucast s) @ [0]) = s" for s :: "32 word"
proof -
  have "take_bit 32 (ucast s :: 64 word) = ucast s"
    unfolding fits_iff by (auto simp: bit_simps dest: bit_imp_le_length)
  then have r: "(\<forall>w \<in> set (selector_widths (ucast s)). 1 \<le> w)"
    "sum_list (selector_widths (ucast s)) \<le> 32"
    "(ucast (foldr selector_step (selector_widths (ucast s)) 0) :: 64 word) = ucast s"
    using selector_widths_rebuild [of 32 "ucast s"] by simp_all
  from r(1,2) have "length (selector_widths (ucast s)) \<le> 32"
    using length_le_sum_list [of "selector_widths (ucast s)"] by simp
  moreover from r(1) have "0 \<notin> set (selector_widths (ucast s))" by auto
  ultimately have "compute_selector (selector_widths (ucast s) @ [0])
      = foldr selector_step (selector_widths (ucast s)) 0"
    by (rule compute_selector_widths)
  with r(3) show ?thesis
    by (simp add: ucast_32_64_inj)
qed

lemma unittest_selector: "compute_selector [3, 2, 5, 4, 0] = 8724"
  by (simp add: compute_selector_def scan_encodings.simps)

lemma WORDS_16 [simp]: "WORDS = 16"
  by (simp add: WORDS_def WORD_WIDTH_def)

lemma log2_ceiling_le: "n \<le> 2 ^ k \<Longrightarrow> log2_ceiling n \<le> k"
proof (induction k arbitrary: n)
  case 0
  then show ?case by (simp add: log2_ceiling.simps)
next
  case (Suc k)
  show ?case
  proof (cases "n \<le> 1")
    case True
    then show ?thesis by (simp add: log2_ceiling.simps)
  next
    case False
    from Suc.prems have "(n + 1) div 2 \<le> 2 ^ k" by simp
    then have "log2_ceiling ((n + 1) div 2) \<le> k" by (rule Suc.IH)
    with False show ?thesis by (subst log2_ceiling.simps) simp
  qed
qed

lemma le_power_log2_ceiling: "n \<le> 2 ^ log2_ceiling n"
proof (induction n rule: log2_ceiling.induct)
  case (1 n)
  show ?case
  proof (cases "n \<le> 1")
    case True
    then show ?thesis by (simp add: log2_ceiling.simps)
  next
    case False
    then have "(n + 1) div 2 \<le> 2 ^ log2_ceiling ((n + 1) div 2)"
      using 1 by simp
    moreover have "n \<le> 2 * ((n + 1) div 2)" by simp
    ultimately have "n \<le> 2 * 2 ^ log2_ceiling ((n + 1) div 2)" by linarith
    with False show ?thesis by (subst log2_ceiling.simps) simp
  qed
qed

lemma ceiling_log2_le: "ceiling_log2 v \<le> 32"
proof -
  have "unat v \<le> 2 ^ 32"
    using unsigned_less [of v, where ?'a = nat] by simp
  then show ?thesis
    by (simp add: ceiling_log2_def log2_ceiling_le)
qed

lemma ceiling_log2_ge: "1 \<le> ceiling_log2 v"
proof (cases "v \<le> 1")
  case True
  then show ?thesis by (simp add: ceiling_log2_def)
next
  case False
  then have "\<not> unat v \<le> 1"
    by (simp add: word_le_nat_alt)
  then show ?thesis
    using False by (subst ceiling_log2_def, subst log2_ceiling.simps) simp
qed

lemma odd_less_power_ceiling_log2:
  assumes "bit v 0"
  shows "unat v < 2 ^ ceiling_log2 v"
proof (cases "v \<le> 1")
  case True
  then have "unat v \<le> 1" by (simp add: word_le_nat_alt)
  with True show ?thesis by (simp add: ceiling_log2_def)
next
  case False
  then have c: "ceiling_log2 v = log2_ceiling (unat v)" by (simp add: ceiling_log2_def)
  have "1 \<le> ceiling_log2 v" by (rule ceiling_log2_ge)
  then have "even ((2 :: nat) ^ ceiling_log2 v)" by simp
  moreover have "odd (unat v)"
  proof -
    from assms have "bit (unat v) 0" by (simp add: bit_unsigned_iff)
    then show ?thesis by (simp add: bit_0)
  qed
  ultimately have "unat v \<noteq> 2 ^ ceiling_log2 v" by metis
  moreover have "unat v \<le> 2 ^ ceiling_log2 v"
    unfolding c by (rule le_power_log2_ceiling)
  ultimately show ?thesis by simp
qed

lemma bit_foldl_or:
  "bit (foldl (\<lambda>m j. m OR F j) m js) n \<longleftrightarrow> bit m n \<or> (\<exists>j \<in> set js. bit (F j) n)"
  for m :: "32 word"
  by (induction js arbitrary: m) (auto simp: bit_or_iff)

lemma fits_of_unat_less:
  "unat v < 2 ^ w \<Longrightarrow> take_bit w v = v" for v :: "32 word"
proof -
  assume "unat v < 2 ^ w"
  then have "take_bit w (unat v) = unat v"
    by (simp add: take_bit_nat_eq_self_iff)
  then have "unat (take_bit w v) = unat v"
    by (simp add: unsigned_take_bit_eq)
  then show ?thesis by (rule unsigned_word_eqI)
qed

lemma column_width_bounds: "1 \<le> column_width a" "column_width a \<le> 32"
  unfolding column_width_def by (rule ceiling_log2_ge, rule ceiling_log2_le)

lemma length_column_group [simp]: "length (column_group a) = 16"
  by (simp add: column_group_def del: upt_rec_numeral)

lemma nth_column_group: "j < 16 \<Longrightarrow> column_group a ! j = (if j < length a then a ! j else 0)"
  by (simp add: column_group_def del: upt_rec_numeral)

lemma column_group_fits:
  assumes "v \<in> set (column_group a)"
  shows "take_bit (column_width a) v = v"
proof -
  define F where "F = (\<lambda>word. if word < length a then a ! word else (1 :: 32 word))"
  define X where "X = foldl (\<lambda>m j. m OR F j) 1 [0 ..< 16]"
  have w: "column_width a = ceiling_log2 X"
    by (simp add: column_width_def X_def F_def del: upt_rec_numeral)
  have bX: "bit X n \<longleftrightarrow> n = 0 \<or> (\<exists>j < 16. bit (F j) n)" for n
    unfolding X_def bit_foldl_or by (auto simp: bit_1_iff simp del: upt_rec_numeral)
  then have "bit X 0" by simp
  then have "unat X < 2 ^ column_width a"
    unfolding w by (rule odd_less_power_ceiling_log2)
  then have "take_bit (column_width a) X = X"
    by (rule fits_of_unat_less)
  then have X: "bit X n \<Longrightarrow> n < column_width a" for n
    by (simp add: fits_iff)
  from assms obtain j where j: "j < 16" "v = column_group a ! j"
    by (metis in_set_conv_nth length_column_group)
  show ?thesis
    unfolding fits_iff
  proof (intro allI impI)
    fix n
    assume b: "bit v n"
    then have "j < length a" "v = a ! j"
      using j by (auto simp: nth_column_group split: if_splits)
    then have "bit (F j) n"
      using b by (simp add: F_def)
    then have "bit X n"
      using j(1) bX by blast
    then show "n < column_width a" by (rule X)
  qed
qed

lemma step_payload_map2:
  "length d = 16 \<Longrightarrow> step_payload c d a = map2 (\<lambda>x v. x OR push_bit c v) d (column_group a)"
  by (rule nth_equalityI) (simp_all add: step_payload_def nth_column_group del: upt_rec_numeral)

lemma length_step_payload [simp]: "length (step_payload c d a) = 16"
  by (simp add: step_payload_def del: upt_rec_numeral)

lemma pack_slices_stop:
  "\<not> (s < 32 \<and> column_width a \<le> r) \<Longrightarrow>
   pack_slices s r c e d a =
     \<lparr>finished = False, slice = s, remaining = r, encodings = e, payload = d, array = a\<rparr>"
  by (subst pack_slices.simps) (auto simp: Let_def)

lemma pack_slices_last:
  "s < 32 \<Longrightarrow> column_width a \<le> r \<Longrightarrow> length a \<le> 16 \<Longrightarrow>
   pack_slices s r c e d a =
     \<lparr>finished = True, slice = s, remaining = r - column_width a,
      encodings = e[s := column_width a], payload = step_payload c d a, array = []\<rparr>"
  using column_width_bounds(2) [of a]
  by (subst pack_slices.simps) (simp add: Let_def step_payload_def del: upt_rec_numeral)

lemma pack_slices_more:
  "s < 32 \<Longrightarrow> column_width a \<le> r \<Longrightarrow> 16 < length a \<Longrightarrow>
   pack_slices s r c e d a =
     pack_slices (Suc s) (r - column_width a) (c + column_width a)
       (e[s := column_width a]) (step_payload c d a) (drop 16 a)"
  using column_width_bounds(2) [of a]
  by (subst pack_slices.simps) (simp add: Let_def step_payload_def del: upt_rec_numeral)

lemma plan_stop: "\<not> (s < 32 \<and> column_width a \<le> r) \<Longrightarrow> plan s r a = []"
  by (subst plan.simps) auto

lemma plan_last:
  "s < 32 \<Longrightarrow> column_width a \<le> r \<Longrightarrow> length a \<le> 16 \<Longrightarrow>
   plan s r a = [(column_width a, column_group a)]"
  by (subst plan.simps) simp

lemma plan_more:
  "s < 32 \<Longrightarrow> column_width a \<le> r \<Longrightarrow> 16 < length a \<Longrightarrow>
   plan s r a = (column_width a, column_group a) # plan (Suc s) (r - column_width a) (drop 16 a)"
  by (subst plan.simps) simp

lemma plan_cases [case_names stop last more]:
  assumes "\<not> (s < 32 \<and> column_width a \<le> r) \<Longrightarrow> P"
    and "s < 32 \<Longrightarrow> column_width a \<le> r \<Longrightarrow> length a \<le> 16 \<Longrightarrow> P"
    and "s < 32 \<Longrightarrow> column_width a \<le> r \<Longrightarrow> 16 < length a \<Longrightarrow> P"
  shows P
  using assms by (cases "s < 32 \<and> column_width a \<le> r"; cases "length a \<le> 16") auto

lemma plan_valid:
  "(w, g) \<in> set (plan s r a) \<Longrightarrow>
   1 \<le> w \<and> w \<le> 32 \<and> length g = 16 \<and> (\<forall>v \<in> set g. take_bit w v = v)"
proof (induction "32 - s" arbitrary: s r a)
  case 0
  then show ?case by (simp add: plan_stop)
next
  case (Suc k)
  show ?case
  proof (cases s a r rule: plan_cases)
    case stop
    with Suc.prems show ?thesis by (simp add: plan_stop)
  next
    case last
    with Suc.prems show ?thesis
      using column_width_bounds [of a] by (auto simp: plan_last column_group_fits)
  next
    case more
    from Suc.prems have "(w, g) = (column_width a, column_group a)
        \<or> (w, g) \<in> set (plan (Suc s) (r - column_width a) (drop 16 a))"
      by (simp add: plan_more [OF more])
    then show ?thesis
    proof
      assume "(w, g) = (column_width a, column_group a)"
      then show ?thesis using column_width_bounds [of a] by (auto simp: column_group_fits)
    next
      assume "(w, g) \<in> set (plan (Suc s) (r - column_width a) (drop 16 a))"
      moreover have "k = 32 - Suc s" using Suc.hyps(2) by simp
      ultimately show ?thesis by (rule Suc.hyps(1) [rotated])
    qed
  qed
qed

lemma plan_sum: "sum_list (map fst (plan s r a)) \<le> r"
proof (induction "32 - s" arbitrary: s r a)
  case 0
  then show ?case by (simp add: plan_stop)
next
  case (Suc k)
  show ?case
  proof (cases s a r rule: plan_cases)
    case stop
    then show ?thesis by (simp add: plan_stop)
  next
    case last
    then show ?thesis by (simp add: plan_last)
  next
    case more
    have "k = 32 - Suc s" using Suc.hyps(2) by simp
    then have "sum_list (map fst (plan (Suc s) (r - column_width a) (drop 16 a))) \<le> r - column_width a"
      by (rule Suc.hyps(1))
    with more show ?thesis by (simp add: plan_more)
  qed
qed

lemma plan_length: "s \<le> 32 \<Longrightarrow> s + length (plan s r a) \<le> 32"
proof (induction "32 - s" arbitrary: s r a)
  case 0
  then show ?case by (simp add: plan_stop)
next
  case (Suc k)
  show ?case
  proof (cases s a r rule: plan_cases)
    case stop
    with Suc.prems show ?thesis by (simp add: plan_stop)
  next
    case last
    then show ?thesis by (simp add: plan_last)
  next
    case more
    have "k = 32 - Suc s" using Suc.hyps(2) by simp
    then have "Suc s + length (plan (Suc s) (r - column_width a) (drop 16 a)) \<le> 32"
      by (rule Suc.hyps(1)) (use more in simp)
    with more show ?thesis by (simp add: plan_more)
  qed
qed

lemma plan_first: "plan 0 32 a \<noteq> []"
  using column_width_bounds(2) [of a]
  by (cases "0 :: nat" a "32 :: nat" rule: plan_cases) (simp_all add: plan_last plan_more)

lemma length_pack_lanes:
  "\<forall>x \<in> set sl. length (snd x) = 16 \<Longrightarrow> length (pack_lanes sl) = 16"
  by (induction sl) auto

lemma length_pack_lanes_plan [simp]: "length (pack_lanes (plan s r a)) = 16"
  by (rule length_pack_lanes) (use plan_valid in fastforce)

lemma map2_or_zero_left:
  "length g = 16 \<Longrightarrow> map2 (\<lambda>v p. v OR push_bit w p) g (replicate 16 (0 :: 32 word)) = g"
  by (rule nth_equalityI) simp_all

lemma map2_or_assoc:
  fixes d g R :: "32 word list"
  assumes "length d = 16" "length g = 16" "length R = 16"
  shows "map2 (\<lambda>x p. x OR push_bit (c + w) p) (map2 (\<lambda>x v. x OR push_bit c v) d g) R
       = map2 (\<lambda>x p. x OR push_bit c p) d (map2 (\<lambda>v p. v OR push_bit w p) g R)"
  by (rule nth_equalityI) (use assms in \<open>simp_all add: or.assoc add.commute\<close>)

lemma pack_slices_plan:
  "length d = 16 \<Longrightarrow> length e = 33 \<Longrightarrow>
   pack_slices s r c e d a = packed_of s r c e d a (plan s r a)"
proof (induction "32 - s" arbitrary: s r c e d a)
  case 0
  then show ?case
    by (simp add: pack_slices_stop plan_stop packed_of_def map2_or_zero_left)
next
  case (Suc k)
  show ?case
  proof (cases s a r rule: plan_cases)
    case stop
    with Suc.prems show ?thesis
      by (simp add: pack_slices_stop plan_stop packed_of_def map2_or_zero_left)
  next
    case last
    with Suc.prems show ?thesis
      by (simp add: pack_slices_last plan_last packed_of_def map2_or_zero_left
          step_payload_map2 upd_conv_take_nth_drop)
  next
    case more
    define w where "w = column_width a"
    define rest where "rest = plan (Suc s) (r - w) (drop 16 a)"
    have k: "k = 32 - Suc s" using Suc.hyps(2) by simp
    have IH: "pack_slices (Suc s) (r - w) (c + w) (e[s := w]) (step_payload c d a) (drop 16 a)
        = packed_of (Suc s) (r - w) (c + w) (e[s := w]) (step_payload c d a) (drop 16 a) rest"
      unfolding rest_def by (rule Suc.hyps(1) [OF k]) (use Suc.prems in simp_all)
    have p: "plan s r a = (w, column_group a) # rest"
      by (simp add: plan_more [OF more] w_def rest_def)
    have lr: "length (pack_lanes rest) = 16"
      by (simp add: rest_def)
    have t: "take (Suc s) (e[s := w]) = take s e @ [w]"
      using more(1) Suc.prems(2) by (simp add: take_Suc_conv_app_nth)
    have "packed_of (Suc s) (r - w) (c + w) (e[s := w]) (step_payload c d a) (drop 16 a) rest
        = packed_of s r c e d a ((w, column_group a) # rest)"
      using more(3) Suc.prems
      by (auto simp: packed_of_def t step_payload_map2 map2_or_assoc lr add.commute)
    then show ?thesis
      by (simp add: pack_slices_more [OF more] IH [unfolded w_def] p w_def)
  qed
qed

lemma mask_set_table: "mask_set = map (\<lambda>w. replicate 16 (mask w)) [0 ..< 33]"
  by code_simp

lemma mask_set_nth: "w \<le> 32 \<Longrightarrow> mask_set ! w = replicate 16 (mask w)"
  by (simp add: mask_set_table del: upt_rec_numeral)

lemma decode_loop_end:
  "end_of_source \<le> source \<Longrightarrow> decode_loop 0 p1 p2 source end_of_source m into = Inr into"
  by (subst decode_loop.simps) simp

lemma decode_loop_past_end:
  "source < end_of_source \<Longrightarrow> length m < source div 4 + 17 \<Longrightarrow>
   decode_loop 0 p1 p2 source end_of_source m into = Inl ReadPastEnd"
  by (subst decode_loop.simps) simp

lemma decode_loop_slice:
  "selector \<noteq> 0 \<Longrightarrow>
   decode_loop selector p1 p2 source end_of_source m into =
     decode_loop (drop_bit (find_first_set_bit selector) selector)
       (map (drop_bit (find_first_set_bit selector)) p1)
       (map (drop_bit (find_first_set_bit selector)) p2)
       source end_of_source m
       (into @ map2 (AND) p1 (take 8 (mask_set ! find_first_set_bit selector))
             @ map2 (AND) p2 (take 8 (mask_set ! find_first_set_bit selector)))"
  by (subst decode_loop.simps) (simp add: Let_def)

lemma decode_loop_load:
  assumes "source < end_of_source" "source div 4 + 17 \<le> length m"
    and "(ucast (m ! (source div 4)) :: 64 word) \<noteq> 0"
  shows "decode_loop 0 p1 p2 source end_of_source m into =
     decode_loop (ucast (m ! (source div 4)))
       (take 8 (drop (source div 4 + 1) m)) (take 8 (drop (source div 4 + 9) m))
       (source + 68) end_of_source m into"
  using assms
  by (subst (1 2) decode_loop.simps) (simp add: Let_def)

lemma lane_take:
  "take_bit w v = v \<Longrightarrow> take_bit w (v OR push_bit w p) = v" for v p :: "32 word"
  by (simp add: take_bit_push_bit)

lemma lane_drop:
  fixes v p :: "32 word"
  assumes "take_bit w v = v" "take_bit (32 - w) p = p"
  shows "drop_bit w (v OR push_bit w p) = p"
proof (rule bit_word_eqI)
  fix n
  assume "n < LENGTH(32)"
  have v: "bit v m \<Longrightarrow> m < w" for m
    using assms(1) by (simp add: fits_iff)
  have p: "bit p m \<Longrightarrow> m < 32 - w" for m
    using assms(2) by (simp add: fits_iff)
  show "bit (drop_bit w (v OR push_bit w p)) n = bit p n"
    using v [of "w + n"] p [of n] by (auto simp: bit_simps)
qed

lemma lanes_fit:
  assumes "\<forall>x \<in> set sl. length (snd x) = 16 \<and> (\<forall>v \<in> set (snd x). take_bit (fst x) v = v)"
    and "p \<in> set (pack_lanes sl)"
  shows "take_bit (sum_list (map fst sl)) p = p"
  using assms
proof (induction sl arbitrary: p)
  case Nil
  then show ?case by simp
next
  case (Cons x sl)
  obtain w g where x: "x = (w, g)" by (cases x)
  from Cons.prems(2) obtain v q where z: "(v, q) \<in> set (zip g (pack_lanes sl))"
    and vq1: "p = v OR push_bit w q"
    by (auto simp: x)
  from z have "v \<in> set g" "q \<in> set (pack_lanes sl)"
    by (auto dest: set_zip_leftD set_zip_rightD)
  note vq = vq1 this
  have v: "bit v m \<Longrightarrow> m < w" for m
    using Cons.prems(1) vq(2) by (auto simp: x fits_iff)
  have "take_bit (sum_list (map fst sl)) q = q"
    using Cons.IH [of q] Cons.prems(1) vq(3) by simp
  then have q: "bit q m \<Longrightarrow> m < sum_list (map fst sl)" for m
    by (simp add: fits_iff)
  show ?case
    unfolding fits_iff
  proof (intro allI impI)
    fix n
    assume "bit p n"
    then have "bit v n \<or> (w \<le> n \<and> bit q (n - w))"
      by (auto simp: vq(1) bit_simps)
    then show "n < sum_list (map fst (x # sl))"
      using v [of n] q [of "n - w"] by (auto simp: x)
  qed
qed

lemma valid_slices_Cons:
  "valid_slices ((w, g) # sl) \<longleftrightarrow>
     1 \<le> w \<and> length g = 16 \<and> (\<forall>v \<in> set g. take_bit w v = v) \<and> valid_slices sl"
  by (auto simp: valid_slices_def list_all_iff)

lemma valid_slices_fit:
  "valid_slices sl \<Longrightarrow> p \<in> set (pack_lanes sl) \<Longrightarrow> take_bit (sum_list (map fst sl)) p = p"
  by (rule lanes_fit) (auto simp: valid_slices_def list_all_iff)

lemma valid_slices_length: "valid_slices sl \<Longrightarrow> length (pack_lanes sl) = 16"
  by (rule length_pack_lanes) (auto simp: valid_slices_def list_all_iff)

lemma and_mask_halves:
  fixes P :: "32 word list"
  assumes "length P = 16"
  shows "map2 (AND) (take 8 P) (replicate 8 (mask w)) @ map2 (AND) (drop 8 P) (replicate 8 (mask w))
       = map (take_bit w) P"
proof -
  have "map2 (AND) (take 8 P) (replicate 8 (mask w)) = map (take_bit w) (take 8 P)"
    by (rule nth_equalityI) (use assms in \<open>simp_all add: take_bit_eq_mask\<close>)
  moreover have "map2 (AND) (drop 8 P) (replicate 8 (mask w)) = map (take_bit w) (drop 8 P)"
    by (rule nth_equalityI) (use assms in \<open>simp_all add: take_bit_eq_mask\<close>)
  ultimately show ?thesis
    by (simp flip: map_append)
qed

lemma decode_frame:
  assumes "valid_slices sl" "sum_list (map fst sl) \<le> 32"
  shows "decode_loop (ucast (foldr selector_step (map fst sl) 0))
           (take 8 (pack_lanes sl)) (drop 8 (pack_lanes sl)) source end_of_source m into
       = decode_loop 0 q1 q2 source end_of_source m (into @ concat (map snd sl))"
  using assms
proof (induction sl arbitrary: into)
  case Nil
  have "decode_loop 0 (take 8 (pack_lanes [])) (drop 8 (pack_lanes [])) source end_of_source m into
      = decode_loop 0 q1 q2 source end_of_source m into"
    by (subst (1 2) decode_loop.simps) simp
  then show ?case by simp
next
  case (Cons x sl)
  obtain w g where x: "x = (w, g)" by (cases x)
  define V :: "32 word" where "V = foldr selector_step (map fst sl) 0"
  define R where "R = pack_lanes sl"
  define P where "P = map2 (\<lambda>v p. v OR push_bit w p) g R"
  from Cons.prems have v: "1 \<le> w" "length g = 16" "\<forall>v \<in> set g. take_bit w v = v" "valid_slices sl"
    and s: "w + sum_list (map fst sl) \<le> 32"
    by (simp_all add: x valid_slices_Cons)
  have w32: "w \<le> 32" using s by simp
  have lR: "length R = 16"
    unfolding R_def using v(4) by (rule valid_slices_length)
  have lP: "length P = 16"
    by (simp add: P_def lR v(2))
  have fitR: "take_bit (32 - w) p = p" if "p \<in> set R" for p
  proof -
    from that have "take_bit (sum_list (map fst sl)) p = p"
      unfolding R_def using v(4) by (intro valid_slices_fit)
    then show ?thesis
      unfolding fits_iff using s by fastforce
  qed
  have tk: "map (take_bit w) P = g"
    by (rule nth_equalityI) (use v(2,3) lR in \<open>simp_all add: P_def take_bit_push_bit\<close>)
  have dr: "map (drop_bit w) P = R"
  proof (rule nth_equalityI)
    show "length (map (drop_bit w) P) = length R" by (simp add: lP lR)
  next
    fix i
    assume "i < length (map (drop_bit w) P)"
    then have i: "i < 16" by (simp add: lP)
    then have "take_bit w (g ! i) = g ! i" "take_bit (32 - w) (R ! i) = R ! i"
      using v(2,3) lR fitR by simp_all
    then have "drop_bit w (g ! i OR push_bit w (R ! i)) = R ! i" by (rule lane_drop)
    then show "map (drop_bit w) P ! i = R ! i"
      using i v(2) lR by (simp add: P_def del: drop_bit_or)
  qed
  have "take_bit (sum_list (map fst sl)) V = V"
    unfolding V_def using v(4)
    by (intro selector_fits) (auto simp: valid_slices_def list_all_iff)
  then have fitV: "take_bit (32 - w) V = V"
    unfolding fits_iff using s by fastforce
  let ?sel = "ucast (selector_step w V) :: 64 word"
  have nz: "?sel \<noteq> 0" using v(1) w32 by (rule selector_step_nonzero)
  have ffs: "find_first_set_bit ?sel = w" using v(1) w32 by (rule selector_step_ffs)
  have dsel: "drop_bit w ?sel = ucast V" using v(1) w32 fitV by (rule selector_step_drop)
  have "decode_loop ?sel (take 8 P) (drop 8 P) source end_of_source m into
      = decode_loop (ucast V) (take 8 R) (drop 8 R) source end_of_source m (into @ g)"
  proof -
    have m8: "take 8 (mask_set ! w) = replicate 8 (mask w)"
      by (simp add: mask_set_nth [OF w32])
    have out: "map2 (AND) (take 8 P) (replicate 8 (mask w))
                 @ map2 (AND) (drop 8 P) (replicate 8 (mask w)) = g"
      by (simp only: and_mask_halves [OF lP] tk)
    have p1: "map (drop_bit w) (take 8 P) = take 8 R"
      by (simp add: dr flip: take_map)
    have p2: "map (drop_bit w) (drop 8 P) = drop 8 R"
      by (simp add: dr flip: drop_map)
    show ?thesis
      by (subst decode_loop_slice [OF nz]) (simp only: ffs dsel m8 out p1 p2)
  qed
  also have "\<dots> = decode_loop 0 q1 q2 source end_of_source m ((into @ g) @ concat (map snd sl))"
    unfolding V_def R_def by (rule Cons.IH) (use v(4) s in simp_all)
  finally show ?case
    by (simp add: x V_def P_def R_def)
qed

lemma plan_concat_length:
  "length (concat (map snd (plan s r a))) = 16 * length (plan s r a)"
proof (induction "32 - s" arbitrary: s r a)
  case 0
  then show ?case by (simp add: plan_stop)
next
  case (Suc k)
  show ?case
  proof (cases s a r rule: plan_cases)
    case stop
    then show ?thesis by (simp add: plan_stop)
  next
    case last
    then show ?thesis by (simp add: plan_last)
  next
    case more
    have "k = 32 - Suc s" using Suc.hyps(2) by simp
    then have "length (concat (map snd (plan (Suc s) (r - column_width a) (drop 16 a))))
        = 16 * length (plan (Suc s) (r - column_width a) (drop 16 a))"
      by (rule Suc.hyps(1))
    with more show ?thesis by (simp add: plan_more)
  qed
qed

lemma plan_concat_nth:
  "i < 16 * length (plan s r a) \<Longrightarrow> i < length a \<Longrightarrow> concat (map snd (plan s r a)) ! i = a ! i"
proof (induction "32 - s" arbitrary: s r a i)
  case 0
  then show ?case by (simp add: plan_stop)
next
  case (Suc k)
  show ?case
  proof (cases s a r rule: plan_cases)
    case stop
    with Suc.prems show ?thesis by (simp add: plan_stop)
  next
    case last
    with Suc.prems show ?thesis by (simp add: plan_last nth_column_group)
  next
    case more
    define rest where "rest = plan (Suc s) (r - column_width a) (drop 16 a)"
    have p: "plan s r a = (column_width a, column_group a) # rest"
      by (simp add: plan_more [OF more] rest_def)
    show ?thesis
    proof (cases "i < 16")
      case True
      then show ?thesis
        using Suc.prems by (simp add: p nth_append nth_column_group)
    next
      case False
      have k: "k = 32 - Suc s" using Suc.hyps(2) by simp
      have "concat (map snd rest) ! (i - 16) = drop 16 a ! (i - 16)"
        unfolding rest_def
        by (rule Suc.hyps(1) [OF k]) (use False Suc.prems in \<open>simp_all add: p rest_def\<close>)
      then show ?thesis
        using False Suc.prems by (simp add: p nth_append)
    qed
  qed
qed

lemma plan_concat_full:
  "16 * length (plan s r a) \<le> length a \<Longrightarrow>
   concat (map snd (plan s r a)) = take (16 * length (plan s r a)) a"
  by (rule nth_equalityI) (simp_all add: plan_concat_length plan_concat_nth)

lemma plan_concat_finished:
  "length a \<le> 16 * length (plan s r a) \<Longrightarrow>
   take (length a) (concat (map snd (plan s r a))) = a"
  by (rule nth_equalityI) (simp_all add: plan_concat_length plan_concat_nth)

lemma plan_overscan: "16 * length (plan s r a) \<le> length a + 16"
proof (induction "32 - s" arbitrary: s r a)
  case 0
  then show ?case by (simp add: plan_stop)
next
  case (Suc k)
  show ?case
  proof (cases s a r rule: plan_cases)
    case stop
    then show ?thesis by (simp add: plan_stop)
  next
    case last
    then show ?thesis by (simp add: plan_last)
  next
    case more
    have "k = 32 - Suc s" using Suc.hyps(2) by simp
    then have "16 * length (plan (Suc s) (r - column_width a) (drop 16 a)) \<le> length (drop 16 a) + 16"
      by (rule Suc.hyps(1))
    with more show ?thesis by (simp add: plan_more)
  qed
qed

lemma pack_lanes_last_width:
  "pack_lanes (sl @ [(w, g)]) = pack_lanes (sl @ [(w', g)])"
  by (induction sl) (auto dest!: set_zip_rightD)

lemma frame_slices_lanes: "pack_lanes (frame_slices a) = pack_lanes (plan 0 32 a)"
proof -
  have "plan 0 32 a = butlast (plan 0 32 a) @ [(fst (last (plan 0 32 a)), snd (last (plan 0 32 a)))]"
    using plan_first [of a] by simp
  then show ?thesis
    unfolding frame_slices_def Let_def by (metis pack_lanes_last_width)
qed

lemma frame_slices_snd: "map snd (frame_slices a) = map snd (plan 0 32 a)"
proof -
  have "map snd (plan 0 32 a) = map snd (butlast (plan 0 32 a) @ [last (plan 0 32 a)])"
    using plan_first [of a] by simp
  then show ?thesis
    by (simp add: frame_slices_def Let_def)
qed

lemma frame_slices_fst:
  "map fst (frame_slices a)
     = butlast (map fst (plan 0 32 a))
       @ [last (map fst (plan 0 32 a)) + (32 - sum_list (map fst (plan 0 32 a)))]"
  using plan_first [of a] by (simp add: frame_slices_def Let_def map_butlast last_map)

lemma frame_slices_sum: "sum_list (map fst (frame_slices a)) = 32"
proof -
  define ws where "ws = map fst (plan 0 32 a)"
  have ne: "ws \<noteq> []" using plan_first [of a] by (simp add: ws_def)
  have le: "sum_list ws \<le> 32" unfolding ws_def by (rule plan_sum)
  from ne have "sum_list ws = sum_list (butlast ws) + last ws"
    by (metis append_butlast_last_id sum_list.Cons sum_list.Nil sum_list_append add.right_neutral)
  with le show ?thesis
    by (simp add: frame_slices_fst ws_def [symmetric])
qed

lemma frame_slices_valid: "valid_slices (frame_slices a)"
proof -
  define sl where "sl = plan 0 32 a"
  have ne: "sl \<noteq> []" using plan_first [of a] by (simp add: sl_def)
  have v: "1 \<le> fst x \<and> length (snd x) = 16 \<and> (\<forall>v \<in> set (snd x). take_bit (fst x) v = v)"
    if "x \<in> set sl" for x
    using plan_valid [of "fst x" "snd x" 0 32 a] that by (simp add: sl_def)
  have b: "x \<in> set sl" if "x \<in> set (butlast sl)" for x
    using that by (rule in_set_butlastD)
  have l: "last sl \<in> set sl" using ne by simp
  have wide: "take_bit (w + k) u = u" if "take_bit w u = u" for w k and u :: "32 word"
    using that unfolding fits_iff by fastforce
  show ?thesis
    unfolding frame_slices_def sl_def [symmetric] Let_def valid_slices_def list_all_iff
    using v [OF b] v [OF l] by (auto intro: wide)
qed

lemma pad_list:
  fixes ws e :: "nat list" and k :: nat
  assumes "ws \<noteq> []" "length ws = n" "n < length e" "last ws + k < 256"
  shows "((ws @ drop n e)[n - 1 := ((ws @ drop n e) ! (n - 1) + k) mod 256])[n := 0]
       = (butlast ws @ [last ws + k]) @ 0 # drop (Suc n) e"
proof -
  from assms(1) obtain bs l where ws: "ws = bs @ [l]"
    by (cases ws rule: rev_cases) auto
  with assms(2) have n: "n = Suc (length bs)" by simp
  have d: "drop (Suc (length bs)) e = e ! Suc (length bs) # drop (Suc (Suc (length bs))) e"
    using assms(3) n by (simp add: Cons_nth_drop_Suc)
  have m: "(l + k) mod 256 = l + k"
    using assms(4) ws by simp
  show ?thesis
    unfolding ws n by (simp add: nth_append d m list_update_append)
qed

lemma zeros_or: "length L = 16 \<Longrightarrow> map2 (OR) (replicate 16 0) L = L" for L :: "32 word list"
  by (rule nth_equalityI) simp_all

lemma frame_facts:
  fixes e :: "nat list" and a :: "32 word list"
  assumes "length e = 33"
  defines "p \<equiv> pack_slices 0 WORD_WIDTH 0 e (replicate WORDS 0) a"
  shows "length (pad_encodings p) = 33"
    and "compute_selector (pad_encodings p) = foldr selector_step (map fst (frame_slices a)) 0"
    and "payload p = pack_lanes (frame_slices a)"
    and "array p = drop (16 * length (plan 0 32 a)) a"
    and "finished p \<longleftrightarrow> length a \<le> 16 * length (plan 0 32 a)"
proof -
  define sl where "sl = plan 0 32 a"
  define ws where "ws = map fst sl"
  define n where "n = length sl"
  define k where "k = 32 - sum_list ws"
  have ne: "sl \<noteq> []" using plan_first [of a] by (simp add: sl_def)
  then have wne: "ws \<noteq> []" and n1: "1 \<le> n" and lws: "length ws = n"
    by (simp_all add: ws_def n_def Suc_le_eq)
  have n32: "n \<le> 32"
    using plan_length [of 0 32 a] by (simp add: n_def sl_def)
  have sum: "sum_list ws \<le> 32"
    unfolding ws_def sl_def by (rule plan_sum)
  have pe: "p = packed_of 0 32 0 e (replicate 16 0) a sl"
    unfolding p_def sl_def using assms(1) by (simp add: WORD_WIDTH_def pack_slices_plan)
  have enc: "encodings p = ws @ drop n e"
    and sli: "slice p = (if finished p then n - 1 else n)"
    and rem: "remaining p = k"
    and fin: "finished p \<longleftrightarrow> length a \<le> 16 * n"
    and arr: "array p = drop (16 * n) a"
    and pay: "payload p = pack_lanes sl"
    using ne by (simp_all add: pe packed_of_def ws_def n_def k_def zeros_or sl_def)
  have "sum_list ws = sum_list (butlast ws) + last ws"
    using wne by (metis append_butlast_last_id sum_list.Cons sum_list.Nil sum_list_append add.right_neutral)
  then have lk: "last ws + k \<le> 32"
    using sum by (simp add: k_def)
  have pad: "pad_encodings p
      = ((ws @ drop n e)[n - 1 := ((ws @ drop n e) ! (n - 1) + k) mod 256])[n := 0]"
    using n1 by (simp add: pad_encodings_def enc sli rem)
  have pad2: "pad_encodings p = (butlast ws @ [last ws + k]) @ 0 # drop (Suc n) e"
    unfolding pad by (rule pad_list) (use wne lws n32 assms(1) lk in simp_all)
  have fst: "map fst (frame_slices a) = butlast ws @ [last ws + k]"
    by (simp add: frame_slices_fst ws_def sl_def k_def)
  show "length (pad_encodings p) = 33"
    using assms(1) n32 lws n1 by (simp add: pad2)
  have "0 \<notin> set (map fst (frame_slices a))"
    using frame_slices_valid [of a] by (auto simp: valid_slices_def list_all_iff)
  moreover have "length (map fst (frame_slices a)) \<le> 32"
    using n32 lws n1 by (simp add: fst)
  ultimately show "compute_selector (pad_encodings p) = foldr selector_step (map fst (frame_slices a)) 0"
    unfolding pad2 fst [symmetric] by (intro compute_selector_widths)
  show "payload p = pack_lanes (frame_slices a)"
    by (simp add: pay frame_slices_lanes sl_def)
  show "array p = drop (16 * length (plan 0 32 a)) a"
    by (simp add: arr n_def sl_def)
  show "finished p \<longleftrightarrow> length a \<le> 16 * length (plan 0 32 a)"
    by (simp add: fin n_def sl_def)
qed

lemma frame_in_memory:
  fixes out :: "32 word list"
  assumes "take (length enc + 17) out = enc @ x # P" "length P = 16"
  shows "out ! length enc = x"
    and "take 8 (drop (length enc + 1) out) = take 8 P"
    and "take 8 (drop (length enc + 9) out) = drop 8 P"
    and "length enc + 17 \<le> length out"
    and "take (length enc) out = enc"
proof -
  have l: "length (take (length enc + 17) out) = length enc + 17"
    by (simp add: assms)
  then show le: "length enc + 17 \<le> length out" by simp
  have "out ! length enc = take (length enc + 17) out ! length enc" by simp
  then show "out ! length enc = x" by (simp add: assms(1))
  have "take 8 (drop (length enc + 1) out) = take 8 (drop (length enc + 1) (take (length enc + 17) out))"
    by (simp add: drop_take)
  then show "take 8 (drop (length enc + 1) out) = take 8 P"
    by (simp add: assms)
  have "take 8 (drop (length enc + 9) out) = take 8 (drop (length enc + 9) (take (length enc + 17) out))"
    by (simp add: drop_take)
  then show "take 8 (drop (length enc + 9) out) = drop 8 P"
    by (simp add: assms)
  have "take (length enc) out = take (length enc) (take (length enc + 17) out)"
    by simp
  then show "take (length enc) out = enc"
    by (simp only: assms(1)) simp
qed

lemma encode_loop_overflow:
  "cap < dest + 72 \<Longrightarrow> encode_loop dest cap enc e a = (0, enc)"
  by (subst encode_loop.simps) simp

lemma encode_loop_finished:
  "dest + 72 \<le> cap \<Longrightarrow> finished (pack_slices 0 WORD_WIDTH 0 e (replicate WORDS 0) a) \<Longrightarrow>
   encode_loop dest cap enc e a =
     (dest + 68,
      enc @ compute_selector (pad_encodings (pack_slices 0 WORD_WIDTH 0 e (replicate WORDS 0) a))
          # payload (pack_slices 0 WORD_WIDTH 0 e (replicate WORDS 0) a))"
  by (subst encode_loop.simps) (simp add: Let_def pad_encodings_def add.commute)

lemma encode_loop_more:
  "dest + 72 \<le> cap \<Longrightarrow> \<not> finished (pack_slices 0 WORD_WIDTH 0 e (replicate WORDS 0) a) \<Longrightarrow>
   encode_loop dest cap enc e a =
     encode_loop (dest + 68) cap
       (enc @ compute_selector (pad_encodings (pack_slices 0 WORD_WIDTH 0 e (replicate WORDS 0) a))
            # payload (pack_slices 0 WORD_WIDTH 0 e (replicate WORDS 0) a))
       (pad_encodings (pack_slices 0 WORD_WIDTH 0 e (replicate WORDS 0) a))
       (array (pack_slices 0 WORD_WIDTH 0 e (replicate WORDS 0) a))"
  by (subst encode_loop.simps) (simp add: Let_def pad_encodings_def add.commute)

lemma frame_selector_nonzero:
  "(ucast (foldr selector_step (map fst (frame_slices a)) 0) :: 64 word) \<noteq> 0"
proof -
  have "map fst (frame_slices a) \<noteq> []"
    by (simp add: frame_slices_fst)
  then obtain w ws where ws: "map fst (frame_slices a) = w # ws"
    by (cases "map fst (frame_slices a)") auto
  have "1 \<le> w"
    using frame_slices_valid [of a] ws
    by (cases "frame_slices a") (auto simp: valid_slices_def)
  moreover have "w \<le> 32"
    using frame_slices_sum [of a] by (simp add: ws)
  ultimately show ?thesis
    unfolding ws by (simp add: selector_step_nonzero)
qed

lemma decode_one_frame:
  fixes out :: "32 word list"
  assumes mem: "take (length enc + 17) out = enc @ x # P"
    and x: "x = foldr selector_step (map fst (frame_slices a)) 0"
    and P: "P = pack_lanes (frame_slices a)"
    and lt: "4 * length enc < bytes"
  shows "decode_loop 0 q1 q2 (4 * length enc) bytes out into
       = decode_loop 0 q1 q2 (4 * length enc + 68) bytes out
           (into @ concat (map snd (plan 0 32 a)))"
proof -
  have lP: "length P = 16"
    unfolding P using frame_slices_valid by (rule valid_slices_length)
  note m = frame_in_memory [OF mem lP]
  have nz: "(ucast (out ! ((4 * length enc) div 4)) :: 64 word) \<noteq> 0"
    using frame_selector_nonzero [of a] by (simp add: m(1) x)
  have "decode_loop 0 q1 q2 (4 * length enc) bytes out into
      = decode_loop (ucast x) (take 8 P) (drop 8 P) (4 * length enc + 68) bytes out into"
    by (subst decode_loop_load [OF lt _ nz]) (use m in simp_all)
  also have "\<dots> = decode_loop 0 q1 q2 (4 * length enc + 68) bytes out
           (into @ concat (map snd (frame_slices a)))"
    unfolding x P by (rule decode_frame) (simp_all add: frame_slices_valid frame_slices_sum)
  finally show ?thesis
    by (simp add: frame_slices_snd)
qed

lemma encode_loop_decodes:
  assumes "length e = 33" "encode_loop (4 * length enc) cap enc e a = (bytes, out)" "bytes \<noteq> 0"
  shows "bytes = 4 * length out \<and> take (length enc) out = enc
       \<and> (\<exists>D. (\<forall>into q1 q2. decode_loop 0 q1 q2 (4 * length enc) bytes out into = Inr (into @ D))
              \<and> take (length a) D = a \<and> length D \<le> length a + 16)"
  using assms
proof (induction "length a" arbitrary: a e enc rule: less_induct)
  case less
  define p where "p = pack_slices 0 WORD_WIDTH 0 e (replicate WORDS 0) a"
  define x where "x = compute_selector (pad_encodings p)"
  define P where "P = payload p"
  define n where "n = length (plan 0 32 a)"
  define G where "G = concat (map snd (plan 0 32 a))"
  note f = frame_facts [OF less.prems(1), of a, folded p_def]
  have xs: "x = foldr selector_step (map fst (frame_slices a)) 0"
    by (simp add: x_def f(2))
  have Ps: "P = pack_lanes (frame_slices a)"
    by (simp add: P_def f(3))
  have lP: "length P = 16"
    unfolding Ps using frame_slices_valid by (rule valid_slices_length)
  have n1: "1 \<le> n"
    using plan_first [of a] by (simp add: n_def Suc_le_eq)
  have lG: "length G = 16 * n"
    by (simp add: G_def n_def plan_concat_length)
  have cap: "4 * length enc + 72 \<le> cap"
  proof (rule ccontr)
    assume "\<not> 4 * length enc + 72 \<le> cap"
    then have "encode_loop (4 * length enc) cap enc e a = (0, enc)"
      by (intro encode_loop_overflow) simp
    with less.prems show False by simp
  qed
  show ?case
  proof (cases "finished p")
    case True
    have "encode_loop (4 * length enc) cap enc e a = (4 * length enc + 68, enc @ x # P)"
      unfolding p_def x_def P_def
      by (rule encode_loop_finished [OF cap]) (use True in \<open>simp add: p_def\<close>)
    with less.prems(2) have r: "bytes = 4 * length enc + 68" "out = enc @ x # P"
      by simp_all
    have mem: "take (length enc + 17) out = enc @ x # P"
      by (simp add: r lP)
    have "decode_loop 0 q1 q2 (4 * length enc) bytes out into = Inr (into @ G)" for into q1 q2
    proof -
      have "decode_loop 0 q1 q2 (4 * length enc) bytes out into
          = decode_loop 0 q1 q2 (4 * length enc + 68) bytes out (into @ G)"
        unfolding G_def by (rule decode_one_frame [OF mem xs Ps]) (simp add: r)
      also have "\<dots> = Inr (into @ G)"
        by (rule decode_loop_end) (simp add: r)
      finally show ?thesis .
    qed
    moreover have "take (length a) G = a"
      unfolding G_def using True by (intro plan_concat_finished) (simp add: f(5))
    moreover have "length G \<le> length a + 16"
      using plan_overscan [of 0 32 a] by (simp add: lG n_def)
    ultimately show ?thesis
      by (auto simp: r lP)
  next
    case False
    define enc' where "enc' = enc @ x # P"
    have l': "4 * length enc' = 4 * length enc + 68"
      by (simp add: enc'_def lP)
    have "encode_loop (4 * length enc) cap enc e a
        = encode_loop (4 * length enc + 68) cap (enc @ x # P) (pad_encodings p) (array p)"
      unfolding p_def x_def P_def
      by (rule encode_loop_more [OF cap]) (use False in \<open>simp add: p_def\<close>)
    with less.prems(2)
    have rec: "encode_loop (4 * length enc') cap enc' (pad_encodings p) (array p) = (bytes, out)"
      unfolding l' by (simp add: enc'_def)
    have na: "16 * n < length a"
      using False by (simp add: f(5) n_def)
    have arr: "array p = drop (16 * n) a"
      by (simp add: f(4) n_def)
    have shorter: "length (array p) < length a"
      using na n1 by (simp add: arr)
    from less.hyps [OF shorter f(1) rec less.prems(3)]
    obtain D' where IH: "bytes = 4 * length out" "take (length enc') out = enc'"
      "\<And>into q1 q2. decode_loop 0 q1 q2 (4 * length enc') bytes out into = Inr (into @ D')"
      "take (length (array p)) D' = array p" "length D' \<le> length (array p) + 16"
      by blast
    have mem: "take (length enc + 17) out = enc @ x # P"
      using IH(2) by (simp add: enc'_def lP)
    note m = frame_in_memory [OF mem lP]
    have lt: "4 * length enc < bytes"
      using m(4) by (simp add: IH(1))
    have "decode_loop 0 q1 q2 (4 * length enc) bytes out into = Inr (into @ G @ D')" for into q1 q2
    proof -
      have "decode_loop 0 q1 q2 (4 * length enc) bytes out into
          = decode_loop 0 q1 q2 (4 * length enc + 68) bytes out (into @ G)"
        unfolding G_def by (rule decode_one_frame [OF mem xs Ps lt])
      also have "\<dots> = Inr ((into @ G) @ D')"
        unfolding l' [symmetric] by (rule IH(3))
      finally show ?thesis by simp
    qed
    moreover have "take (length a) (G @ D') = a"
    proof -
      have G: "G = take (16 * n) a"
        unfolding G_def n_def using na by (intro plan_concat_full) (simp add: n_def)
      have "take (length a - 16 * n) D' = drop (16 * n) a"
        using IH(4) by (simp add: arr)
      then show ?thesis
        using na by (simp add: lG) (simp add: G)
    qed
    moreover have "length (G @ D') \<le> length a + 16"
      using IH(5) na by (simp add: lG arr)
    ultimately show ?thesis
      using IH(1) m(5) by blast
  qed
qed

lemma encode_loop_succeeds:
  "length e = 33 \<Longrightarrow> dest + 72 * (length a div 16 + 1) \<le> cap \<Longrightarrow>
   fst (encode_loop dest cap enc e a) \<noteq> 0"
proof (induction "length a" arbitrary: a e enc dest rule: less_induct)
  case less
  define p where "p = pack_slices 0 WORD_WIDTH 0 e (replicate WORDS 0) a"
  define n where "n = length (plan 0 32 a)"
  note f = frame_facts [OF less.prems(1), of a, folded p_def]
  have n1: "1 \<le> n"
    using plan_first [of a] by (simp add: n_def Suc_le_eq)
  have cap: "dest + 72 \<le> cap"
    using less.prems(2) by simp
  show ?case
  proof (cases "finished p")
    case True
    have "encode_loop dest cap enc e a
        = (dest + 68, enc @ compute_selector (pad_encodings p) # payload p)"
      unfolding p_def by (rule encode_loop_finished [OF cap]) (use True in \<open>simp add: p_def\<close>)
    then show ?thesis by simp
  next
    case False
    have step: "encode_loop dest cap enc e a
        = encode_loop (dest + 68) cap (enc @ compute_selector (pad_encodings p) # payload p)
            (pad_encodings p) (array p)"
      unfolding p_def by (rule encode_loop_more [OF cap]) (use False in \<open>simp add: p_def\<close>)
    have na: "16 * n < length a"
      using False by (simp add: f(5) n_def)
    have la: "length (array p) = length a - 16 * n"
      by (simp add: f(4) n_def)
    have "length (array p) + 16 \<le> length a"
      using na n1 la by simp
    then have "(length (array p) + 16) div 16 \<le> length a div 16"
      by (rule div_le_mono)
    then have d: "length (array p) div 16 + 1 \<le> length a div 16"
      by simp
    have "dest + 68 + 72 * (length (array p) div 16 + 1) \<le> dest + 68 + 72 * (length a div 16)"
      using d by simp
    also have "\<dots> \<le> cap"
      using less.prems(2) by simp
    finally have c': "dest + 68 + 72 * (length (array p) div 16 + 1) \<le> cap" .
    have "length (array p) < length a"
      using na n1 la by simp
    from less.hyps [OF this f(1) c'] show ?thesis
      by (simp add: step)
  qed
qed

lemma encode_loop_capacity:
  assumes "length e = 33" "fst (encode_loop dest cap1 enc1 e a) = n1" "n1 \<noteq> 0"
  shows "fst (encode_loop dest cap2 enc2 e a) = (if cap2 < n1 + 4 then 0 else n1)
       \<and> dest + 68 \<le> n1 \<and> n1 + 4 \<le> cap1 \<and> 68 dvd (n1 - dest)"
  using assms
proof (induction "length a" arbitrary: a e enc1 enc2 dest rule: less_induct)
  case less
  define p where "p = pack_slices 0 WORD_WIDTH 0 e (replicate WORDS 0) a"
  define n where "n = length (plan 0 32 a)"
  define fr where "fr = compute_selector (pad_encodings p) # payload p"
  note f = frame_facts [OF less.prems(1), of a, folded p_def]
  have n1: "1 \<le> n"
    using plan_first [of a] by (simp add: n_def Suc_le_eq)
  have cap: "dest + 72 \<le> cap1"
  proof (rule ccontr)
    assume "\<not> dest + 72 \<le> cap1"
    then have "encode_loop dest cap1 enc1 e a = (0, enc1)"
      by (intro encode_loop_overflow) simp
    with less.prems show False by simp
  qed
  show ?case
  proof (cases "finished p")
    case True
    have fin: "encode_loop dest c enc e a = (dest + 68, enc @ fr)" if "dest + 72 \<le> c" for c enc
      unfolding p_def fr_def by (rule encode_loop_finished [OF that]) (use True in \<open>simp add: p_def\<close>)
    from fin [OF cap, of enc1] less.prems(2) have n: "n1 = dest + 68" by simp
    have "fst (encode_loop dest cap2 enc2 e a) = (if cap2 < n1 + 4 then 0 else n1)"
    proof (cases "cap2 < dest + 72")
      case True
      then show ?thesis by (simp add: encode_loop_overflow n)
    next
      case False
      then show ?thesis using fin [of cap2 enc2] by (simp add: n)
    qed
    then show ?thesis
      using cap by (simp add: n)
  next
    case False
    have more: "encode_loop dest c enc e a
        = encode_loop (dest + 68) c (enc @ fr) (pad_encodings p) (array p)" if "dest + 72 \<le> c" for c enc
      unfolding p_def fr_def by (rule encode_loop_more [OF that]) (use False in \<open>simp add: p_def\<close>)
    have na: "16 * n < length a"
      using False by (simp add: f(5) n_def)
    have la: "length (array p) = length a - 16 * n"
      by (simp add: f(4) n_def)
    have shorter: "length (array p) < length a"
      using na n1 la by simp
    have r1: "fst (encode_loop (dest + 68) cap1 (enc1 @ fr) (pad_encodings p) (array p)) = n1"
      using more [OF cap, of enc1] less.prems(2) by simp
    note IH = less.hyps [OF shorter f(1) r1 less.prems(3), of "enc2 @ fr"]
    have "fst (encode_loop dest cap2 enc2 e a) = (if cap2 < n1 + 4 then 0 else n1)"
    proof (cases "cap2 < dest + 72")
      case True
      then show ?thesis using IH by (simp add: encode_loop_overflow)
    next
      case False
      then show ?thesis using more [of cap2 enc2] IH by simp
    qed
    moreover have "68 dvd (n1 - dest)"
    proof -
      from IH have d: "68 dvd (n1 - (dest + 68))" and b: "dest + 68 + 68 \<le> n1" by simp_all
      from b have "n1 - dest = (n1 - (dest + 68)) + 68" by simp
      with d show ?thesis by (metis dvd_add dvd_refl)
    qed
    ultimately show ?thesis
      using IH by simp
  qed
qed

text \<open>
  C5. For widths \<open>w\<^sub>1 \<dots> w\<^sub>k\<close> with \<open>1 \<le> w\<^sub>i \<le> 32\<close> and sum at most 32, followed by
  the sentinel 0, the decoder's width extraction reads exactly \<open>w\<^sub>1 \<dots> w\<^sub>k\<close> off
  \<open>compute_selector\<close>; conversely \<open>compute_selector\<close> rebuilds any 32-bit selector from
  the widths extracted from it. In particular the widths \<open>[3, 2, 5, 4]\<close> are read back.
\<close>

theorem compute_selector_inverse:
  "((\<forall>w \<in> set ws. 1 \<le> w \<and> w \<le> 32) \<and> sum_list ws \<le> 32 \<longrightarrow>
      selector_widths (ucast (compute_selector (ws @ 0 # rest))) = ws)
   \<and> compute_selector (selector_widths (ucast s) @ [0]) = s
   \<and> selector_widths (ucast (compute_selector [3, 2, 5, 4, 0])) = [3, 2, 5, 4]"
proof -
  have fwd: "selector_widths (ucast (compute_selector (vs @ 0 # r))) = vs"
    if "\<forall>w \<in> set vs. 1 \<le> w \<and> w \<le> 32" "sum_list vs \<le> 32" for vs r
  proof -
    from that(1) have ge: "\<forall>w \<in> set vs. 1 \<le> w" by simp
    then have "length vs \<le> sum_list vs" by (rule length_le_sum_list)
    with that(2) have "length vs \<le> 32" by simp
    moreover from ge have "0 \<notin> set vs" by auto
    ultimately have "compute_selector (vs @ 0 # r) = foldr selector_step vs 0"
      by (rule compute_selector_widths)
    then show ?thesis
      using ge that(2) by (simp add: selector_widths_compute)
  qed
  have "selector_widths (ucast (compute_selector ([3, 2, 5, 4] @ 0 # []))) = [3, 2, 5, 4]"
    by (rule fwd) simp_all
  then show ?thesis
    using fwd [of ws rest] by (simp add: compute_selector_of_widths)
qed

theorem compute_selector_inverse_witness:
  "sum_list [7, 25 :: nat] \<le> 32
   \<and> selector_widths (ucast (compute_selector ([7, 25] @ 0 # [9, 9]))) = [7, 25]
   \<and> compute_selector (selector_widths (ucast (0xFFFFFFFF :: 32 word)) @ [0]) = 0xFFFFFFFF"
  using compute_selector_inverse [of "[7, 25]" "[9, 9]" "0xFFFFFFFF"] by simp

text \<open>
  C6 (amended). For every input there is an encoded size \<open>n\<close>, a positive multiple of
  the frame size 68, such that \<open>encode\<close> returns 0 exactly when the capacity is less than
  \<open>n + 4\<close> and otherwise returns \<open>n\<close>, which is the number of bytes written and does not
  exceed the capacity less 4: a frame is started only where 72 bytes remain.
\<close>

theorem encode_overflow_contract:
  "\<exists>n. 0 < n \<and> 68 dvd n
     \<and> (\<forall>cap. fst (encode cap src) = (if cap < n + 4 then 0 else n))
     \<and> (\<forall>cap. fst (encode cap src) \<noteq> 0 \<longrightarrow>
            fst (encode cap src) = 4 * length (snd (encode cap src))
          \<and> fst (encode cap src) + 4 \<le> cap)"
proof -
  define cap1 where "cap1 = 72 * (length src div 16 + 1)"
  define n where "n = fst (encode cap1 src)"
  have e: "length (replicate 33 (0 :: nat)) = 33" by simp
  have nz: "n \<noteq> 0"
    unfolding n_def encode_def by (rule encode_loop_succeeds [OF e]) (simp add: cap1_def)
  have c: "fst (encode cap src) = (if cap < n + 4 then 0 else n)" for cap
    using encode_loop_capacity [OF e _ nz, of 0 cap1 "[]" src cap "[]"]
    by (simp add: n_def encode_def)
  have d: "68 dvd n"
    using encode_loop_capacity [OF e _ nz, of 0 cap1 "[]" src cap1 "[]"]
    by (simp add: n_def encode_def)
  have w: "fst (encode cap src) = 4 * length (snd (encode cap src)) \<and> fst (encode cap src) + 4 \<le> cap"
    if "fst (encode cap src) \<noteq> 0" for cap
  proof -
    from that have "fst (encode cap src) = 4 * length (snd (encode cap src))"
      using encode_loop_decodes [OF e, of "[]" cap src "fst (encode cap src)" "snd (encode cap src)"]
      by (simp add: encode_def)
    moreover from that have "fst (encode cap src) + 4 \<le> cap"
      using c [of cap] by (simp split: if_splits)
    ultimately show ?thesis by simp
  qed
  from nz c d w show ?thesis by blast
qed

lemma encode_one: "encode 72 [1] = (68, [0x80000000, 1, 0, 0, 0, 0, 0, 0, 0, 0, 0, 0, 0, 0, 0, 0, 0])"
  by code_simp

lemma encode_one_short: "fst (encode 71 [1]) = 0"
  by code_simp

theorem encode_overflow_contract_witness:
  "fst (encode 71 [1]) = 0 \<and> fst (encode 72 [1]) = 68
   \<and> fst (encode 72 [1]) = 4 * length (snd (encode 72 [1])) \<and> fst (encode 72 [1]) + 4 \<le> 72"
  using encode_overflow_contract [of "[1]"] by (simp add: encode_one encode_one_short)

text \<open>
  The encoding of the one integer 1 is one frame of 68 bytes, yet a buffer of exactly
  68 bytes is refused.
\<close>

theorem encode_exact_fit_counterexample:
  "fst (encode 68 [1]) = 0 \<and> fst (encode 72 [1]) = 68 \<and> 4 * length (snd (encode 72 [1])) = 68"
proof -
  have "fst (encode 68 [1]) = 0" by code_simp
  then show ?thesis by (simp add: encode_one)
qed

text \<open>
  C1. Whenever \<open>encode\<close> succeeds (which it does in any buffer of at least
  \<open>72 * (n div 16 + 1)\<close> bytes for \<open>n\<close> integers), decoding the bytes it returned yields
  the input, followed by the padding of the last group of sixteen (at most 16 integers).
\<close>

theorem encode_decode_round_trip:
  "(fst (encode cap src) \<noteq> 0 \<longrightarrow>
      (\<exists>padding. length padding \<le> 16
         \<and> decode (length src) (snd (encode cap src)) (fst (encode cap src))
               = Inr (src @ padding)))
   \<and> (72 * (length src div 16 + 1) \<le> cap \<longrightarrow> fst (encode cap src) \<noteq> 0)"
proof (intro conjI impI)
  assume nz: "fst (encode cap src) \<noteq> 0"
  have e: "length (replicate 33 (0 :: nat)) = 33" by simp
  from encode_loop_decodes [OF e, of "[]" cap src "fst (encode cap src)" "snd (encode cap src)"] nz
  obtain D where D: "\<And>into q1 q2. decode_loop 0 q1 q2 0 (fst (encode cap src)) (snd (encode cap src)) into
                       = Inr (into @ D)"
    "take (length src) D = src" "length D \<le> length src + 16"
    by (auto simp: encode_def)
  from D(2) have "D = src @ drop (length src) D"
    by (metis append_take_drop_id)
  moreover from D(3) have "length (drop (length src) D) \<le> 16"
    by simp
  ultimately have "length (drop (length src) D) \<le> 16
      \<and> decode (length src) (snd (encode cap src)) (fst (encode cap src))
            = Inr (src @ drop (length src) D)"
    using D(1) [of "replicate 8 0" "replicate 8 0" "[]"] by (simp add: decode_def)
  then show "\<exists>padding. length padding \<le> 16
         \<and> decode (length src) (snd (encode cap src)) (fst (encode cap src))
               = Inr (src @ padding)"
    by blast
next
  assume "72 * (length src div 16 + 1) \<le> cap"
  then show "fst (encode cap src) \<noteq> 0"
    unfolding encode_def by (intro encode_loop_succeeds) simp_all
qed

lemma encode_three:
  "encode 72 [1, 793, 5] = (68, [0x80000000, 1, 793, 5, 0, 0, 0, 0, 0, 0, 0, 0, 0, 0, 0, 0, 0])"
  by code_simp

lemma decode_three:
  "decode (length [1, 793, 5 :: 32 word])
       [0x80000000, 1, 793, 5, 0, 0, 0, 0, 0, 0, 0, 0, 0, 0, 0, 0, 0] 68
     = Inr [1, 793, 5, 0, 0, 0, 0, 0, 0, 0, 0, 0, 0, 0, 0, 0]"
  by code_simp

theorem encode_decode_round_trip_witness:
  "fst (encode 72 [1, 793, 5]) \<noteq> 0
   \<and> 72 * (length [1, 793, 5 :: 32 word] div 16 + 1) \<le> 72
   \<and> decode (length [1, 793, 5 :: 32 word]) (snd (encode 72 [1, 793, 5])) (fst (encode 72 [1, 793, 5]))
       = Inr ([1, 793, 5] @ [0, 0, 0, 0, 0, 0, 0, 0, 0, 0, 0, 0, 0])"
  using encode_decode_round_trip [of 72 "[1, 793, 5]"]
  unfolding encode_three fst_conv snd_conv decode_three
  by simp

end
